theory Spec2Isabelle
  imports Main "HOL-Library.Word" "HOL-Library.Signed_Division"
begin

unbundle bit_operations_syntax

section \<open>Frame hooks (main/framehook.c)\<close>

subsection \<open>Data model\<close>

text \<open>
  A \<open>struct ast_frame *\<close> is modelled by its address; the dispatcher only compares
  frame pointers and tests them against \<open>NULL\<close>, which is address 0.
\<close>

type_synonym frame = nat

datatype ast_framehook_event =
    AST_FRAMEHOOK_EVENT_READ
  | AST_FRAMEHOOK_EVENT_WRITE
  | AST_FRAMEHOOK_EVENT_ATTACHED
  | AST_FRAMEHOOK_EVENT_DETACHED

text \<open>
  The event callback \<open>event_cb(chan, frame, event, data)\<close> returns a frame pointer.
  Besides that it may change the state behind its \<open>data\<close> pointer and, as the comment
  in \<open>ast_framehook_detach\<close> allows, call \<open>ast_framehook_detach(chan, id)\<close> on the
  channel it was handed. The model of a callback therefore returns the frame, the new
  \<open>data\<close> state and the ids it passed to \<open>ast_framehook_detach\<close>, in call order.
  A callback that attaches further hooks while a dispatch is running is outside the model.
\<close>

type_synonym 'd event_cb_t = "frame \<Rightarrow> ast_framehook_event \<Rightarrow> 'd \<Rightarrow> frame \<times> 'd \<times> int list"

text \<open>
  \<open>struct ast_framehook_interface\<close>: both callbacks are function pointers that may be
  \<open>NULL\<close>; \<open>destroy_cb\<close> only releases \<open>data\<close>, so the model records whether it is set.
\<close>

record 'd ast_framehook_interface =
  version :: "16 word"
  event_cb :: "'d event_cb_t option"
  destroy_cb :: bool
  data :: 'd

text \<open>
  \<open>struct ast_framehook\<close>. The fields \<open>i\<close> and \<open>id\<close> carry a suffix, since \<open>id\<close> is the
  identity function of HOL. The back pointer \<open>chan\<close> and the list linkage are
  represented by the position of the entry in the list of its owner.
\<close>

record 'd ast_framehook =
  i_fh :: "'d ast_framehook_interface"
  id_fh :: "32 word"
  detach_and_destroy_me :: bool

text \<open>\<open>struct ast_framehook_list\<close>: two \<open>unsigned int\<close> counters and the linked list.\<close>

record 'd ast_framehook_list =
  count :: "32 word"
  id_count :: "32 word"
  list_fh :: "'d ast_framehook list"

text \<open>
  What a function does to the outside world is logged in call order: an invocation of
  the event callback of the hook with the given id, an invocation of its destroy
  callback, \<open>ast_frfree\<close> of a frame, and \<open>ast_free\<close> of the hook itself.
\<close>

datatype call =
    Event_cb "32 word" ast_framehook_event frame
  | Destroy_cb "32 word"
  | Frfree frame
  | Free_hook "32 word"

text \<open>
  C leaves two situations undefined that the record types do not exclude: calling a
  \<open>NULL\<close> event callback, and indexing the \<open>skip\<close> array of the dispatcher past the
  \<open>count\<close> slots it was allocated with.
\<close>

datatype fault = Null_event_cb | Skip_out_of_bounds

subsection \<open>ast_framehook_detach\<close>

text \<open>
  The traversal of \<open>ast_framehook_detach\<close>: the first entry whose id equals the
  argument gets its flag set and the search stops with 0; with no such entry the result
  stays -1.
\<close>

fun detach_traverse :: "32 word \<Rightarrow> 'd ast_framehook list \<Rightarrow> 'd ast_framehook list \<times> int" where
  "detach_traverse x [] = ([], -1)"
| "detach_traverse x (fh # hs) =
     (if id_fh fh = x then (fh\<lparr>detach_and_destroy_me := True\<rparr> # hs, 0)
      else (fh # fst (detach_traverse x hs), snd (detach_traverse x hs)))"

text \<open>
  \<open>int ast_framehook_detach(struct ast_channel *chan, int id)\<close>. The channel is
  represented by its framehook list pointer (\<open>None\<close> is \<open>NULL\<close>). The comparison
  \<open>framehook->id == id\<close> converts the \<open>int\<close> argument to \<open>unsigned int\<close>.
  The function calls nothing, so its log is empty.
\<close>

definition ast_framehook_detach ::
  "'d ast_framehook_list option \<Rightarrow> int \<Rightarrow> int \<times> 'd ast_framehook_list option \<times> call list" where
  "ast_framehook_detach chan x =
     (case chan of
        None \<Rightarrow> (-1, None, [])
      | Some l \<Rightarrow>
          (snd (detach_traverse (word_of_int x) (list_fh l)),
           Some (l\<lparr>list_fh := fst (detach_traverse (word_of_int x) (list_fh l))\<rparr>),
           []))"

text \<open>
  The detach calls a callback made on its channel, applied in order to the hooks of
  the list.
\<close>

definition detach_calls :: "int list \<Rightarrow> 'd ast_framehook list \<Rightarrow> 'd ast_framehook list" where
  "detach_calls xs hs = fold (\<lambda>x hs'. fst (detach_traverse (word_of_int x) hs')) xs hs"

subsection \<open>framehook_detach_and_destroy\<close>

text \<open>
  Called on a hook that was just unlinked; \<open>hs\<close> are the hooks still in the list. The
  callback receives \<open>NULL\<close> and \<open>AST_FRAMEHOOK_EVENT_DETACHED\<close>; a frame it returns is
  freed; the destroy callback runs when set; the hook is freed.
\<close>

definition framehook_detach_and_destroy ::
  "'d ast_framehook \<Rightarrow> 'd ast_framehook list \<Rightarrow> fault + ('d ast_framehook list \<times> call list)" where
  "framehook_detach_and_destroy fh hs =
     (case event_cb (i_fh fh) of
        None \<Rightarrow> Inl Null_event_cb
      | Some cb \<Rightarrow>
          (case cb 0 AST_FRAMEHOOK_EVENT_DETACHED (data (i_fh fh)) of
             (fr, d, dets) \<Rightarrow>
               Inr (detach_calls dets hs,
                    [Event_cb (id_fh fh) AST_FRAMEHOOK_EVENT_DETACHED 0]
                    @ (if fr \<noteq> 0 then [Frfree fr] else [])
                    @ (if destroy_cb (i_fh fh) then [Destroy_cb (id_fh fh)] else [])
                    @ [Free_hook (id_fh fh)])))"

lemma length_detach_traverse [simp]: "length (fst (detach_traverse x hs)) = length hs"
  by (induction hs) auto

lemma length_detach_calls [simp]: "length (detach_calls xs hs) = length hs"
  unfolding detach_calls_def by (induction xs arbitrary: hs) auto

lemma length_framehook_detach_and_destroy:
  "framehook_detach_and_destroy fh hs = Inr (hs', tr) \<Longrightarrow> length hs' = length hs"
  unfolding framehook_detach_and_destroy_def
  by (auto split: option.splits prod.splits)

subsection \<open>framehook_list_push_event\<close>

text \<open>
  One run of the \<open>AST_LIST_TRAVERSE_SAFE\<close> loop inside the \<open>do \<dots> while\<close>. The cursor
  \<open>k\<close> is the position of the current entry, \<open>num\<close> the index into \<open>skip\<close>, \<open>frame\<close>
  the frame the pass started with (\<open>original_frame\<close>), \<open>tr\<close> the log so far. The pass
  ends either at the end of the list, or at the \<open>break\<close> after a callback returned a
  different frame.
\<close>

datatype 'd pass =
    Pass_done "'d ast_framehook list" "call list"
  | Pass_break "'d ast_framehook list" "bool list" frame "call list"
  | Pass_fault fault

function framehook_list_traverse ::
  "'d ast_framehook list \<Rightarrow> nat \<Rightarrow> nat \<Rightarrow> bool list \<Rightarrow> frame \<Rightarrow> ast_framehook_event \<Rightarrow>
   call list \<Rightarrow> 'd pass" where
  "framehook_list_traverse hs k num skip frame event tr =
     (if length hs \<le> k then Pass_done hs tr
      else if detach_and_destroy_me (hs ! k) then
        (case framehook_detach_and_destroy (hs ! k) (take k hs @ drop (Suc k) hs) of
           Inl e \<Rightarrow> Pass_fault e
         | Inr r \<Rightarrow> framehook_list_traverse (fst r) k num skip frame event (tr @ snd r))
      else if length skip \<le> num then Pass_fault Skip_out_of_bounds
      else if skip ! num then framehook_list_traverse hs (Suc k) (Suc num) skip frame event tr
      else
        (case event_cb (i_fh (hs ! k)) of
           None \<Rightarrow> Pass_fault Null_event_cb
         | Some cb \<Rightarrow>
             (case cb frame event (data (i_fh (hs ! k))) of
                (fr, d, dets) \<Rightarrow>
                  if fr \<noteq> frame
                  then Pass_break
                         (detach_calls dets (hs[k := (hs ! k)\<lparr>i_fh := (i_fh (hs ! k))\<lparr>data := d\<rparr>\<rparr>]))
                         (skip[num := True]) fr
                         (tr @ [Event_cb (id_fh (hs ! k)) event frame])
                  else framehook_list_traverse
                         (detach_calls dets (hs[k := (hs ! k)\<lparr>i_fh := (i_fh (hs ! k))\<lparr>data := d\<rparr>\<rparr>]))
                         (Suc k) (Suc num) skip frame event
                         (tr @ [Event_cb (id_fh (hs ! k)) event frame]))))"
  by pat_completeness auto
termination
proof (relation "measure (\<lambda>(hs, k, num, skip, frame, event, tr). length hs - k)")
  show "wf (measure (\<lambda>(hs, k, num, skip, frame, event, tr). length hs - k))"
    by simp
next
  fix hs :: "'d ast_framehook list" and k num :: nat and skip :: "bool list"
    and frame :: frame and event :: ast_framehook_event and tr :: "call list"
    and r :: "'d ast_framehook list \<times> call list"
  assume "\<not> length hs \<le> k"
    and "framehook_detach_and_destroy (hs ! k) (take k hs @ drop (Suc k) hs) = Inr r"
  then have "length (fst r) = length hs - 1" and "k < length hs"
    using length_framehook_detach_and_destroy [of "hs ! k" "take k hs @ drop (Suc k) hs" "fst r" "snd r"]
    by auto
  then show "((fst r, k, num, skip, frame, event, tr @ snd r), hs, k, num, skip, frame, event, tr)
      \<in> measure (\<lambda>(hs, k, num, skip, frame, event, tr). length hs - k)"
    by simp
qed auto

declare framehook_list_traverse.simps [simp del]

text \<open>How many slots of \<open>skip\<close> are still clear.\<close>

definition clear_slots :: "bool list \<Rightarrow> nat" where
  "clear_slots skip = length (filter Not skip)"

lemma clear_slots_update:
  "num < length skip \<Longrightarrow> \<not> skip ! num \<Longrightarrow>
   Suc (clear_slots (skip[num := True])) = clear_slots skip"
  unfolding clear_slots_def
proof (induction skip arbitrary: num)
  case Nil
  then show ?case by simp
next
  case (Cons b bs)
  then show ?case by (cases num) auto
qed

lemma traverse_break_clears:
  "framehook_list_traverse hs k num skip frame event tr = Pass_break hs' skip' fr tr' \<Longrightarrow>
   Suc (clear_slots skip') = clear_slots skip \<and> length skip' = length skip \<and> fr \<noteq> frame"
proof (induction hs k num skip frame event tr rule: framehook_list_traverse.induct)
  case (1 hs k num skip frame event tr)
  show ?case
  proof (cases "length hs \<le> k")
    case True
    with "1.prems" show ?thesis
      by (simp add: framehook_list_traverse.simps)
  next
    case inlist: False
    show ?thesis
    proof (cases "detach_and_destroy_me (hs ! k)")
      case True
      with inlist "1.prems" "1.IH"(1) show ?thesis
        by (simp add: framehook_list_traverse.simps [of hs k] split: sum.splits)
    next
      case live: False
      show ?thesis
      proof (cases "length skip \<le> num")
        case True
        with inlist live "1.prems" show ?thesis
          by (simp add: framehook_list_traverse.simps [of hs k])
      next
        case inskip: False
        show ?thesis
        proof (cases "skip ! num")
          case True
          with inlist live inskip "1.prems" "1.IH"(2) show ?thesis
            by (simp add: framehook_list_traverse.simps [of hs k])
        next
          case False
          with inlist live inskip "1.prems" "1.IH"(3) show ?thesis
            by (auto simp add: framehook_list_traverse.simps [of hs k] clear_slots_update
                split: option.splits prod.splits if_splits)
        qed
      qed
    qed
  qed
qed

text \<open>
  The \<open>do \<dots> while (frame != original_frame)\<close> loop. \<open>passes\<close> counts the runs of the
  loop body; it is bookkeeping of the model, the C code has no such variable.
\<close>

function framehook_list_loop ::
  "'d ast_framehook list \<Rightarrow> bool list \<Rightarrow> frame \<Rightarrow> ast_framehook_event \<Rightarrow> call list \<Rightarrow> nat \<Rightarrow>
   fault + (frame \<times> 'd ast_framehook list \<times> call list \<times> nat)" where
  "framehook_list_loop hs skip frame event tr passes =
     (case framehook_list_traverse hs 0 0 skip frame event tr of
        Pass_fault e \<Rightarrow> Inl e
      | Pass_done hs' tr' \<Rightarrow> Inr (frame, hs', tr', Suc passes)
      | Pass_break hs' skip' fr tr' \<Rightarrow> framehook_list_loop hs' skip' fr event tr' (Suc passes))"
  by pat_completeness auto
termination
proof (relation "measure (\<lambda>(hs, skip, frame, event, tr, passes). clear_slots skip)")
  show "wf (measure (\<lambda>(hs, skip, frame, event, tr, passes). clear_slots skip))"
    by simp
next
  fix hs hs' :: "'d ast_framehook list" and skip skip' :: "bool list" and frame fr :: frame
    and event :: ast_framehook_event and tr tr' :: "call list" and passes :: nat
  assume "framehook_list_traverse hs 0 0 skip frame event tr = Pass_break hs' skip' fr tr'"
  then have "Suc (clear_slots skip') = clear_slots skip"
    using traverse_break_clears by blast
  then show "((hs', skip', fr, event, tr', Suc passes), hs, skip, frame, event, tr, passes)
      \<in> measure (\<lambda>(hs, skip, frame, event, tr, passes). clear_slots skip)"
    by simp
qed

declare framehook_list_loop.simps [simp del]

text \<open>
  \<open>framehook_list_push_event\<close>: a \<open>NULL\<close> list returns the frame at once; otherwise
  \<open>skip\<close> is an array of \<open>count\<close> zeroed slots and the loop runs. The result is the
  returned frame, the list afterwards, the log, and the number of passes.
\<close>

definition framehook_list_push_event ::
  "'d ast_framehook_list option \<Rightarrow> frame \<Rightarrow> ast_framehook_event \<Rightarrow>
   fault + (frame \<times> 'd ast_framehook_list option \<times> call list \<times> nat)" where
  "framehook_list_push_event framehooks frame event =
     (case framehooks of
        None \<Rightarrow> Inr (frame, None, [], 0)
      | Some l \<Rightarrow>
          (case framehook_list_loop (list_fh l) (replicate (unat (count l)) False) frame event [] 0 of
             Inl e \<Rightarrow> Inl e
           | Inr (fr, hs, tr, passes) \<Rightarrow> Inr (fr, Some (l\<lparr>list_fh := hs\<rparr>), tr, passes)))"

definition ast_framehook_list_write_event ::
  "'d ast_framehook_list option \<Rightarrow> frame \<Rightarrow>
   fault + (frame \<times> 'd ast_framehook_list option \<times> call list \<times> nat)" where
  "ast_framehook_list_write_event framehooks frame =
     framehook_list_push_event framehooks frame AST_FRAMEHOOK_EVENT_WRITE"

definition ast_framehook_list_read_event ::
  "'d ast_framehook_list option \<Rightarrow> frame \<Rightarrow>
   fault + (frame \<times> 'd ast_framehook_list option \<times> call list \<times> nat)" where
  "ast_framehook_list_read_event framehooks frame =
     framehook_list_push_event framehooks frame AST_FRAMEHOOK_EVENT_READ"

subsection \<open>ast_framehook_attach\<close>

text \<open>
  \<open>AST_FRAMEHOOK_INTERFACE_VERSION\<close> comes from a header that is not part of the
  sources, so it is a parameter, as are the outcomes of the two \<open>ast_calloc\<close> calls
  (\<open>True\<close>: memory was returned). The function returns -1 on a version mismatch, on a
  \<open>NULL\<close> event callback and on a failed allocation, leaving the channel as it was.
  Otherwise it creates the list if the channel has none, increments \<open>count\<close>, gives the
  hook the incremented \<open>id_count\<close>, appends it, calls the event callback with
  \<open>AST_FRAMEHOOK_EVENT_ATTACHED\<close> and returns the \<open>unsigned int\<close> id converted to
  \<open>int\<close>.
\<close>

definition ast_framehook_attach ::
  "16 word \<Rightarrow> bool \<Rightarrow> bool \<Rightarrow> 'd ast_framehook_list option \<Rightarrow> 'd ast_framehook_interface \<Rightarrow>
   int \<times> 'd ast_framehook_list option \<times> call list" where
  "ast_framehook_attach interface_version calloc_hook calloc_list chan ifc =
     (if version ifc \<noteq> interface_version then (-1, chan, [])
      else case event_cb ifc of
        None \<Rightarrow> (-1, chan, [])
      | Some cb \<Rightarrow>
          if \<not> calloc_hook then (-1, chan, [])
          else if chan = None \<and> \<not> calloc_list then (-1, chan, [])
          else
            (let l = (case chan of
                        None \<Rightarrow> \<lparr>count = 0, id_count = 0, list_fh = []\<rparr>
                      | Some l0 \<Rightarrow> l0);
                 new_id = id_count l + 1;
                 out = cb 0 AST_FRAMEHOOK_EVENT_ATTACHED (data ifc);
                 fh = \<lparr>i_fh = ifc\<lparr>data := fst (snd out)\<rparr>, id_fh = new_id,
                       detach_and_destroy_me = False\<rparr>
             in (sint new_id,
                 Some (l\<lparr>count := count l + 1, id_count := new_id,
                         list_fh := detach_calls (snd (snd out)) (list_fh l @ [fh])\<rparr>),
                 [Event_cb new_id AST_FRAMEHOOK_EVENT_ATTACHED 0]
                 @ (if fst out \<noteq> 0 then [Frfree (fst out)] else []))))"

subsection \<open>ast_framehook_list_destroy\<close>

text \<open>
  Every entry is unlinked and destroyed in list order, then the list itself is freed and
  the pointer of the channel is set to \<open>NULL\<close>.
\<close>

function list_destroy_traverse ::
  "'d ast_framehook list \<Rightarrow> call list \<Rightarrow> fault + call list" where
  "list_destroy_traverse [] tr = Inr tr"
| "list_destroy_traverse (fh # hs) tr =
     (case framehook_detach_and_destroy fh hs of
        Inl e \<Rightarrow> Inl e
      | Inr r \<Rightarrow> list_destroy_traverse (fst r) (tr @ snd r))"
  by pat_completeness auto
termination
proof (relation "measure (\<lambda>(hs, tr). length hs)")
  show "wf (measure (\<lambda>(hs, tr). length hs))"
    by simp
next
  fix fh :: "'d ast_framehook" and hs :: "'d ast_framehook list" and tr :: "call list"
    and r :: "'d ast_framehook list \<times> call list"
  assume "framehook_detach_and_destroy fh hs = Inr r"
  then have "length (fst r) = length hs"
    using length_framehook_detach_and_destroy [of fh hs "fst r" "snd r"] by simp
  then show "((fst r, tr @ snd r), fh # hs, tr) \<in> measure (\<lambda>(hs, tr). length hs)"
    by simp
qed

definition ast_framehook_list_destroy ::
  "'d ast_framehook_list option \<Rightarrow> fault + (int \<times> 'd ast_framehook_list option \<times> call list)" where
  "ast_framehook_list_destroy chan =
     (case chan of
        None \<Rightarrow> Inr (0, None, [])
      | Some l \<Rightarrow>
          (case list_destroy_traverse (list_fh l) [] of
             Inl e \<Rightarrow> Inl e
           | Inr tr \<Rightarrow> Inr (0, None, tr)))"

subsection \<open>Sequences of calls on one channel\<close>

text \<open>
  The calls a channel makes on its framehook list between the creation of the list and
  its teardown. An attach carries the interface and the outcomes of its allocations.
\<close>

datatype 'd api_call =
    Attach "'d ast_framehook_interface" bool bool
  | Detach int
  | Read_event frame
  | Write_event frame

text \<open>The conditions under which \<open>ast_framehook_attach\<close> reaches \<open>return framehook->id\<close>.\<close>

definition attach_succeeds ::
  "16 word \<Rightarrow> bool \<Rightarrow> bool \<Rightarrow> 'd ast_framehook_list option \<Rightarrow> 'd ast_framehook_interface \<Rightarrow> bool" where
  "attach_succeeds interface_version calloc_hook calloc_list chan ifc \<longleftrightarrow>
     version ifc = interface_version \<and> event_cb ifc \<noteq> None \<and> calloc_hook \<and>
     (chan \<noteq> None \<or> calloc_list)"

text \<open>
  The ids that the successful attaches of a sequence of calls return, in call order.
  A dispatch that faults ends the run.
\<close>

fun returned_ids ::
  "16 word \<Rightarrow> 'd api_call list \<Rightarrow> 'd ast_framehook_list option \<Rightarrow> int list" where
  "returned_ids v [] chan = []"
| "returned_ids v (Attach ifc calloc_hook calloc_list # calls) chan =
     (if attach_succeeds v calloc_hook calloc_list chan ifc
      then [fst (ast_framehook_attach v calloc_hook calloc_list chan ifc)] else [])
     @ returned_ids v calls (fst (snd (ast_framehook_attach v calloc_hook calloc_list chan ifc)))"
| "returned_ids v (Detach x # calls) chan =
     returned_ids v calls (fst (snd (ast_framehook_detach chan x)))"
| "returned_ids v (Read_event f # calls) chan =
     (case ast_framehook_list_read_event chan f of
        Inl e \<Rightarrow> []
      | Inr r \<Rightarrow> returned_ids v calls (fst (snd r)))"
| "returned_ids v (Write_event f # calls) chan =
     (case ast_framehook_list_write_event chan f of
        Inl e \<Rightarrow> []
      | Inr r \<Rightarrow> returned_ids v calls (fst (snd r)))"

text \<open>
  The same sequence of calls as a whole: the channel and the log after the last call, or
  the fault of the dispatch that faulted.
\<close>

fun run ::
  "16 word \<Rightarrow> 'd api_call list \<Rightarrow> 'd ast_framehook_list option \<Rightarrow> call list \<Rightarrow>
   fault + ('d ast_framehook_list option \<times> call list)" where
  "run v [] chan tr = Inr (chan, tr)"
| "run v (Attach ifc calloc_hook calloc_list # calls) chan tr =
     run v calls (fst (snd (ast_framehook_attach v calloc_hook calloc_list chan ifc)))
       (tr @ snd (snd (ast_framehook_attach v calloc_hook calloc_list chan ifc)))"
| "run v (Detach x # calls) chan tr =
     run v calls (fst (snd (ast_framehook_detach chan x)))
       (tr @ snd (snd (ast_framehook_detach chan x)))"
| "run v (Read_event f # calls) chan tr =
     (case ast_framehook_list_read_event chan f of
        Inl e \<Rightarrow> Inl e
      | Inr r \<Rightarrow> run v calls (fst (snd r)) (tr @ fst (snd (snd r))))"
| "run v (Write_event f # calls) chan tr =
     (case ast_framehook_list_write_event chan f of
        Inl e \<Rightarrow> Inl e
      | Inr r \<Rightarrow> run v calls (fst (snd r)) (tr @ fst (snd (snd r))))"
subsection \<open>Example hooks\<close>

text \<open>
  Callbacks and channels for the concrete runs further down. \<open>pass_through\<close> returns
  the frame it was given. \<open>substituting\<close> replaces frame 100 by frame 200 and passes
  every other frame through. \<open>leaving\<close> passes every frame through and, on a read
  event, calls \<open>ast_framehook_detach(chan, 1)\<close>: attached first, it detaches itself.
\<close>

definition pass_through :: "unit event_cb_t" where
  "pass_through f ev d = (f, d, [])"

definition substituting :: "unit event_cb_t" where
  "substituting f ev d = (if f = 100 then (200, d, []) else (f, d, []))"

definition leaving :: "unit event_cb_t" where
  "leaving f ev d = (if ev = AST_FRAMEHOOK_EVENT_READ then (f, d, [1]) else (f, d, []))"

definition hook_of :: "unit event_cb_t \<Rightarrow> unit ast_framehook_interface" where
  "hook_of cb = \<lparr>version = 1, event_cb = Some cb, destroy_cb = False, data = ()\<rparr>"

definition entry :: "unit event_cb_t \<Rightarrow> 32 word \<Rightarrow> unit ast_framehook" where
  "entry cb n = \<lparr>i_fh = hook_of cb, id_fh = n, detach_and_destroy_me = False\<rparr>"

text \<open>A list of two observing hooks, the second with a destroy callback.\<close>

definition two_hooks :: "unit ast_framehook_list" where
  "two_hooks =
     \<lparr>count = 2, id_count = 2,
      list_fh = [entry pass_through 1,
                 \<lparr>i_fh = (hook_of pass_through)\<lparr>destroy_cb := True\<rparr>, id_fh = 2,
                  detach_and_destroy_me = False\<rparr>]\<rparr>"

text \<open>The same list after \<open>ast_framehook_detach(chan, 2)\<close>.\<close>

definition two_hooks_flagged :: "unit ast_framehook_list" where
  "two_hooks_flagged =
     \<lparr>count = 2, id_count = 2,
      list_fh = [entry pass_through 1,
                 \<lparr>i_fh = (hook_of pass_through)\<lparr>destroy_cb := True\<rparr>, id_fh = 2,
                  detach_and_destroy_me = True\<rparr>]\<rparr>"

text \<open>A list with a single hook, which substitutes.\<close>

definition one_substituting :: "unit ast_framehook_list" where
  "one_substituting = \<lparr>count = 1, id_count = 1, list_fh = [entry substituting 1]\<rparr>"

text \<open>The channel after two observing hooks were attached to a channel without a list.\<close>

definition two_attached :: "unit ast_framehook_list option" where
  "two_attached =
     fst (snd (ast_framehook_attach 1 True True
       (fst (snd (ast_framehook_attach 1 True True None (hook_of pass_through))))
       (hook_of pass_through)))"

text \<open>
  The channel after hooks A, B, C were attached in this order: A is \<open>leaving\<close>, B is
  \<open>substituting\<close>, C is \<open>pass_through\<close>.
\<close>

definition abc_attached :: "unit ast_framehook_list option" where
  "abc_attached =
     fst (snd (ast_framehook_attach 1 True True
       (fst (snd (ast_framehook_attach 1 True True
          (fst (snd (ast_framehook_attach 1 True True None (hook_of leaving))))
          (hook_of substituting))))
       (hook_of pass_through)))"

text \<open>
  \<open>leaving_substituting\<close> does both on a read event: it calls
  \<open>ast_framehook_detach(chan, 1)\<close> and replaces frame 100 by frame 200.
\<close>

definition leaving_substituting :: "unit event_cb_t" where
  "leaving_substituting f ev d =
     (if ev = AST_FRAMEHOOK_EVENT_READ then (if f = 100 then 200 else f, d, [1]) else (f, d, []))"

text \<open>
  Lists of two hooks with ids 1 and 2, the second observing: the first is \<open>leaving\<close>,
  or \<open>leaving_substituting\<close>. \<open>leaving_flagged\<close> is the first list with the flag of hook
  1 set.
\<close>

definition leaving_first :: "unit ast_framehook_list" where
  "leaving_first =
     \<lparr>count = 2, id_count = 2, list_fh = [entry leaving 1, entry pass_through 2]\<rparr>"

definition leaving_flagged :: "unit ast_framehook_list" where
  "leaving_flagged =
     \<lparr>count = 2, id_count = 2,
      list_fh = [(entry leaving 1)\<lparr>detach_and_destroy_me := True\<rparr>, entry pass_through 2]\<rparr>"

definition leaving_substituting_first :: "unit ast_framehook_list" where
  "leaving_substituting_first =
     \<lparr>count = 2, id_count = 2,
      list_fh = [entry leaving_substituting 1, entry pass_through 2]\<rparr>"
section \<open>Signal processing routines (tone and digit detection)\<close>

subsection \<open>Data model\<close>

text \<open>
  A C \<open>int\<close> is a 32-bit word read in two's complement: \<open>+\<close> and \<open>-\<close> wrap,
  \<open>sint\<close> gives the value, and \<open><s\<close> and \<open>\<le>s\<close> are the signed comparisons of C. A
  \<open>char\<close> is an 8-bit word, a \<open>short\<close> sample a 16-bit word.

  The Goertzel filter states and the energies are \<open>float\<close>s. They are not part of
  the model: wherever the code branches on a comparison of floats, the model takes the
  outcome of the comparison as an input.
\<close>

type_synonym cint = "32 word"

definition MAX_DTMF_DIGITS :: cint where "MAX_DTMF_DIGITS = 128"
definition DSP_HISTORY :: cint where "DSP_HISTORY = 5"
definition BUSY_THRESHOLD :: cint where "BUSY_THRESHOLD = 100"
definition BUSY_MIN :: cint where "BUSY_MIN = 80"
definition BUSY_MAX :: cint where "BUSY_MAX = 1100"
definition GSAMP_SIZE :: cint where "GSAMP_SIZE = 183"
definition COUNT_THRESH :: cint where "COUNT_THRESH = 3"

definition TONE_STATE_SILENCE :: cint where "TONE_STATE_SILENCE = 0"
definition TONE_STATE_RINGING :: cint where "TONE_STATE_RINGING = 1"
definition TONE_STATE_DIALTONE :: cint where "TONE_STATE_DIALTONE = 2"
definition TONE_STATE_TALKING :: cint where "TONE_STATE_TALKING = 3"
definition TONE_STATE_BUSY :: cint where "TONE_STATE_BUSY = 4"
definition TONE_STATE_SPECIAL1 :: cint where "TONE_STATE_SPECIAL1 = 5"
definition TONE_STATE_SPECIAL2 :: cint where "TONE_STATE_SPECIAL2 = 6"
definition TONE_STATE_SPECIAL3 :: cint where "TONE_STATE_SPECIAL3 = 7"

subsection \<open>Signed arithmetic without overflow\<close>

text \<open>
  The value of a difference or an increment of two \<open>int\<close>s when the result is in the
  range of \<open>int\<close>.
\<close>

lemma sint_sub_small:
  fixes a b :: cint
  assumes "0 \<le> sint b" and "sint b \<le> sint a"
  shows "sint (a - b) = sint a - sint b"
proof -
  have "sint a < 2 ^ 31"
    using sint_lt [of a] by simp
  then have "- (2 ^ 31) \<le> sint a - sint b \<and> sint a - sint b < 2 ^ 31"
    using assms by simp
  then have "signed_take_bit 31 (sint a - sint b) = sint a - sint b"
    by (simp add: signed_take_bit_int_eq_self)
  then show ?thesis
    by (simp add: sint_word_ariths)
qed

lemma sint_add1_small:
  fixes a :: cint
  assumes "sint a < 2 ^ 31 - 1"
  shows "sint (a + 1) = sint a + 1"
proof -
  have "- (2 ^ 31) \<le> sint a"
    using sint_ge [of a] by simp
  then have "- (2 ^ 31) \<le> sint a + 1 \<and> sint a + 1 < 2 ^ 31"
    using assms by simp
  then have "signed_take_bit 31 (sint a + 1) = sint a + 1"
    by (simp add: signed_take_bit_int_eq_self)
  then show ?thesis
    by (simp add: sint_word_ariths)
qed

lemma sint_diff_small:
  fixes a b :: cint
  assumes "- (2 ^ 31) \<le> sint a - sint b" and "sint a - sint b < 2 ^ 31"
  shows "sint (a - b) = sint a - sint b"
proof -
  have "signed_take_bit 31 (sint a - sint b) = sint a - sint b"
    using assms by (simp add: signed_take_bit_int_eq_self)
  then show ?thesis
    by (simp add: sint_word_ariths)
qed

text \<open>
  \<open>mf_detect_state_t\<close> and \<open>dtmf_detect_state_t\<close>, without their filter states. The
  two structs have the same integer fields, and \<open>dtmf_detect_state_t\<close> has the array
  \<open>digit_hits\<close> in addition, so the second record extends the first. \<open>digits\<close> is the
  array \<open>char digits[MAX_DTMF_DIGITS + 1]\<close>; the queued digits are its first
  \<open>current_digits\<close> characters.
\<close>

record mf_detect_state_t =
  hit1 :: cint
  hit2 :: cint
  hit3 :: cint
  hit4 :: cint
  mhit :: cint
  current_sample :: cint
  digits :: "8 word list"
  current_digits :: cint
  detected_digits :: cint
  lost_digits :: cint
  fax_hits :: cint

record dtmf_detect_state_t = mf_detect_state_t +
  digit_hits :: "cint list"

text \<open>
  The union \<open>td\<close> of \<open>struct ast_dsp\<close> holds one of the two detector states; which
  one is in use is decided by the bit \<open>DSP_DIGITMODE_MF\<close> of \<open>digitmode\<close>.
\<close>

datatype td_union = Td_dtmf dtmf_detect_state_t | Td_mf mf_detect_state_t

text \<open>\<open>struct ast_dsp\<close>, without the output frame \<open>f\<close>, the filters \<open>freqs\<close> and \<open>genergy\<close>.\<close>

record ast_dsp =
  threshold :: cint
  totalsilence :: cint
  totalnoise :: cint
  features :: cint
  busymaybe :: cint
  busycount :: cint
  historicnoise :: "cint list"
  historicsilence :: "cint list"
  gsamps :: cint
  tstate :: cint
  tcount :: cint
  digitmode :: cint
  thinkdigit :: cint
  td :: td_union

text \<open>
  What C leaves undefined and the record types do not exclude: an array index outside
  the array, a division by zero, and a read of the member of \<open>td\<close> that is not in use.
\<close>

datatype dsp_fault = Out_of_bounds | Division_by_zero | Inactive_member

subsection \<open>Initialisation of the detectors\<close>

text \<open>
  \<open>ast_dtmf_detect_init\<close> and \<open>ast_mf_detect_init\<close> write the fields below (and the
  filters) and leave the others as they are: \<open>memset\<close> clears the whole array
  \<open>digits\<close>, then \<open>digits[0]\<close> is set to NUL once more.
\<close>

definition ast_dtmf_detect_init :: "dtmf_detect_state_t \<Rightarrow> dtmf_detect_state_t" where
  "ast_dtmf_detect_init s =
     s\<lparr>hit1 := 0, hit2 := 0, current_sample := 0, detected_digits := 0, current_digits := 0,
       digits := (replicate (length (digits s)) 0)[0 := 0], lost_digits := 0, mhit := 0\<rparr>"

definition ast_mf_detect_init :: "mf_detect_state_t \<Rightarrow> mf_detect_state_t" where
  "ast_mf_detect_init s =
     s\<lparr>hit1 := 0, hit2 := 0, current_digits := 0,
       digits := (replicate (length (digits s)) 0)[0 := 0], current_sample := 0,
       detected_digits := 0, lost_digits := 0, mhit := 0\<rparr>"

subsection \<open>The digit queue\<close>

text \<open>
  The statement that queues a confirmed digit stands three times in the source: twice
  in \<open>dtmf_detect\<close> with the limit \<open>MAX_DTMF_DIGITS\<close> (for a digit and for the fax tone)
  and once in \<open>mf_detect\<close> with the limit \<open>MAX_DTMF_DIGITS - 2\<close>:
  \<^verbatim>\<open>if (s->current_digits < limit) {
      s->digits[s->current_digits++] = hit;
      s->digits[s->current_digits] = '\0';
  } else {
      s->lost_digits++;
  }\<close>
\<close>

definition store_digit ::
  "cint \<Rightarrow> cint \<Rightarrow> 'a mf_detect_state_t_scheme \<Rightarrow> dsp_fault + 'a mf_detect_state_t_scheme" where
  "store_digit limit hit s =
     (if current_digits s <s limit then
        (if current_digits s <s 0 \<or> length (digits s) \<le> Suc (nat (sint (current_digits s)))
         then Inl Out_of_bounds
         else Inr (s\<lparr>digits := (digits s)[nat (sint (current_digits s)) := ucast hit,
                                          Suc (nat (sint (current_digits s))) := 0],
                     current_digits := current_digits s + 1\<rparr>))
      else Inr (s\<lparr>lost_digits := lost_digits s + 1\<rparr>))"

text \<open>The queued digits, oldest first.\<close>

definition queue :: "'a mf_detect_state_t_scheme \<Rightarrow> 8 word list" where
  "queue s = take (nat (sint (current_digits s))) (digits s)"

subsection \<open>ast_dsp_getdigits\<close>

text \<open>
  The body of either branch of \<open>ast_dsp_getdigits\<close>, on the detector state in use.
  \<open>memcpy\<close> copies \<open>max\<close> characters to the front of \<open>buf\<close>; \<open>memmove\<close> moves the
  remaining \<open>current_digits - max\<close> characters to the front of \<open>digits\<close>;
  \<open>buf[max]\<close> is set to NUL. \<open>buf\<close> is the buffer of the caller with the capacity it
  was allocated with.
\<close>

definition getdigits_from ::
  "'a mf_detect_state_t_scheme \<Rightarrow> 8 word list \<Rightarrow> cint \<Rightarrow>
   dsp_fault + (cint \<times> 8 word list \<times> 'a mf_detect_state_t_scheme)" where
  "getdigits_from s buf max0 =
     (let max1 = (if current_digits s <s max0 then current_digits s else max0);
          n = nat (sint max1);
          m = nat (sint (current_digits s - max1))
      in if 0 <s max1 then
           (if length buf \<le> n \<or> length (digits s) < n + m then Inl Out_of_bounds
            else Inr (max1,
                      (take n (digits s) @ drop n buf)[n := 0],
                      s\<lparr>digits := take m (drop n (digits s)) @ drop m (digits s),
                        current_digits := current_digits s - max1\<rparr>))
         else if max1 <s 0 \<or> length buf \<le> n then Inl Out_of_bounds
         else Inr (max1, buf[n := 0], s))"

text \<open>
  \<open>int ast_dsp_getdigits(struct ast_dsp *dsp, char *buf, int max)\<close>. The mask
  \<open>DSP_DIGITMODE_MF\<close> is defined in a header that is not part of the sources, so it is
  a parameter.
\<close>

definition ast_dsp_getdigits ::
  "cint \<Rightarrow> ast_dsp \<Rightarrow> 8 word list \<Rightarrow> cint \<Rightarrow> dsp_fault + (cint \<times> 8 word list \<times> ast_dsp)" where
  "ast_dsp_getdigits dsp_digitmode_mf dsp buf max0 =
     (if digitmode dsp AND dsp_digitmode_mf \<noteq> 0 then
        (case td dsp of
           Td_mf s \<Rightarrow>
             (case getdigits_from s buf max0 of
                Inl e \<Rightarrow> Inl e
              | Inr (n, buf', s') \<Rightarrow> Inr (n, buf', dsp\<lparr>td := Td_mf s'\<rparr>))
         | Td_dtmf s \<Rightarrow> Inl Inactive_member)
      else
        (case td dsp of
           Td_dtmf s \<Rightarrow>
             (case getdigits_from s buf max0 of
                Inl e \<Rightarrow> Inl e
              | Inr (n, buf', s') \<Rightarrow> Inr (n, buf', dsp\<lparr>td := Td_dtmf s'\<rparr>))
         | Td_mf s \<Rightarrow> Inl Inactive_member))"

subsection \<open>The end of a DTMF block\<close>

text \<open>
  \<open>dtmf_detect\<close> runs its filters over the samples and, each time 102 samples are
  complete, evaluates the block. The evaluation is modelled here; the loop over the
  samples, which only feeds the filters, and the zeroing of the samples of a hit (the
  quelch) are not. The comparisons of energies are inputs:
  \<^item> \<open>row_gt i j\<close>: \<open>row_energy[i] > row_energy[j]\<close>, and \<open>col_gt\<close> likewise;
  \<^item> \<open>level_and_twist r c\<close>: the signal level test and the twist test for the best row
    \<open>r\<close> and the best column \<open>c\<close>;
  \<^item> \<open>peak_exceeds i r c\<close>: the condition under which the relative peak loop breaks
    at \<open>i\<close>;
  \<^item> \<open>harmonics_ok r c\<close>: the energy test and the two second harmonic tests;
  \<^item> \<open>fax_level\<close>: \<open>fax_energy >= FAX_THRESHOLD && fax_energy > s->energy * 21.0\<close>;
  \<^item> \<open>fax_harmonic\<close>: \<open>fax_energy_2nd * FAX_2ND_HARMONIC < fax_energy\<close>.
\<close>

record dtmf_block_tests =
  row_gt :: "nat \<Rightarrow> nat \<Rightarrow> bool"
  col_gt :: "nat \<Rightarrow> nat \<Rightarrow> bool"
  level_and_twist :: "nat \<Rightarrow> nat \<Rightarrow> bool"
  peak_exceeds :: "nat \<Rightarrow> nat \<Rightarrow> nat \<Rightarrow> bool"
  harmonics_ok :: "nat \<Rightarrow> nat \<Rightarrow> bool"
  fax_level :: bool
  fax_harmonic :: bool

text \<open>\<open>for (best = 0, i = 1; i < n; i++) if (energy[i] > energy[best]) best = i;\<close>\<close>

definition best_of :: "(nat \<Rightarrow> nat \<Rightarrow> bool) \<Rightarrow> nat \<Rightarrow> nat" where
  "best_of gt n = fold (\<lambda>i best. if gt i best then i else best) [1..<n] 0"

definition dtmf_positions :: "8 word list" where
  "dtmf_positions = map of_char ''123A456B789C*0#D'' @ [0]"

text \<open>
  The tone tests and, on two successive identical hits after a different one, the
  confirmation of the digit. Returns \<open>hit\<close> and the state.
\<close>

definition dtmf_digit_step ::
  "dtmf_block_tests \<Rightarrow> dtmf_detect_state_t \<Rightarrow> dsp_fault + (cint \<times> dtmf_detect_state_t)" where
  "dtmf_digit_step t s =
     (let best_row = best_of (row_gt t) 4;
          best_col = best_of (col_gt t) 4;
          idx = push_bit 2 best_row + best_col
      in if level_and_twist t best_row best_col \<and>
            (\<forall>i \<in> set [0..<4]. \<not> peak_exceeds t i best_row best_col) \<and>
            harmonics_ok t best_row best_col
         then
           (let hit = ucast (dtmf_positions ! idx)
            in if hit = hit3 s \<and> hit3 s \<noteq> hit2 s then
                 (if length (digit_hits s) \<le> idx then Inl Out_of_bounds
                  else
                    (case store_digit MAX_DTMF_DIGITS hit
                            (s\<lparr>mhit := hit,
                               detected_digits := detected_digits s + 1,
                               digit_hits := (digit_hits s)[idx := digit_hits s ! idx + 1]\<rparr>) of
                       Inl e \<Rightarrow> Inl e
                     | Inr s' \<Rightarrow> Inr (hit, s')))
               else Inr (hit, s))
         else Inr (0, s))"

text \<open>The fax tone: \<open>'f'\<close> is the character 102.\<close>

definition dtmf_fax_step ::
  "dtmf_block_tests \<Rightarrow> cint \<Rightarrow> dtmf_detect_state_t \<Rightarrow> dsp_fault + (cint \<times> dtmf_detect_state_t)" where
  "dtmf_fax_step t hit s =
     (if hit = 0 \<and> fax_level t then
        (if fax_harmonic t then Inr (102, s\<lparr>fax_hits := fax_hits s + 1\<rparr>) else Inr (hit, s))
      else if 5 <s fax_hits s then
        (case store_digit MAX_DTMF_DIGITS 102
                (s\<lparr>mhit := 102, detected_digits := detected_digits s + 1\<rparr>) of
           Inl e \<Rightarrow> Inl e
         | Inr s' \<Rightarrow> Inr (102, s'\<lparr>fax_hits := 0\<rparr>))
      else Inr (hit, s\<lparr>fax_hits := 0\<rparr>))"

text \<open>
  The whole evaluation of a block: both steps, the shift of the hit history, and the
  reset of \<open>current_sample\<close>.
\<close>

definition dtmf_detect_block ::
  "dtmf_block_tests \<Rightarrow> dtmf_detect_state_t \<Rightarrow> dsp_fault + (cint \<times> dtmf_detect_state_t)" where
  "dtmf_detect_block t s =
     (case dtmf_digit_step t s of
        Inl e \<Rightarrow> Inl e
      | Inr (hit, s1) \<Rightarrow>
          (case dtmf_fax_step t hit s1 of
             Inl e \<Rightarrow> Inl e
           | Inr (hit', s2) \<Rightarrow>
               Inr (hit', s2\<lparr>hit1 := hit2 s2, hit2 := hit3 s2, hit3 := hit',
                              current_sample := 0\<rparr>)))"

text \<open>A run of blocks, stopping at a fault.\<close>

fun dtmf_detect_blocks ::
  "dtmf_block_tests list \<Rightarrow> dtmf_detect_state_t \<Rightarrow> dsp_fault + dtmf_detect_state_t" where
  "dtmf_detect_blocks [] s = Inr s"
| "dtmf_detect_blocks (t # ts) s =
     (case dtmf_detect_block t s of
        Inl e \<Rightarrow> Inl e
      | Inr (hit, s') \<Rightarrow> dtmf_detect_blocks ts s')"

subsection \<open>The end of an MF block\<close>

text \<open>
  The same for \<open>mf_detect\<close>, whose blocks have 160 samples. The inputs:
  \<^item> \<open>tone_gt i j\<close>: \<open>tone_energy[i] > tone_energy[j]\<close>;
  \<^item> \<open>relative_fails b i\<close>: \<open>tone_energy[b] < tone_energy[i] * MF_RELATIVE_PEAK\<close>;
  \<^item> \<open>harmonic_fails b c\<close>:
    \<open>goertzel_result(&s->tone_out2nd[b]) * MF_2ND_HARMONIC > tone_energy[c]\<close>.
  In the search for the second highest tone, \<open>max\<close> always holds the energy of some
  tone; the model carries the index of that tone.
\<close>

record mf_block_tests =
  tone_gt :: "nat \<Rightarrow> nat \<Rightarrow> bool"
  relative_fails :: "nat \<Rightarrow> nat \<Rightarrow> bool"
  harmonic_fails :: "nat \<Rightarrow> nat \<Rightarrow> bool"

definition mf_hit :: "8 word list list" where
  "mf_hit =
     [[0, of_char CHR ''1'', of_char CHR ''2'', of_char CHR ''4'', of_char CHR ''7'', of_char CHR ''C''],
      [of_char CHR ''1'', 0, of_char CHR ''3'', of_char CHR ''5'', of_char CHR ''8'', of_char CHR ''A''],
      [of_char CHR ''2'', of_char CHR ''3'', 0, of_char CHR ''6'', of_char CHR ''9'', of_char CHR ''*''],
      [of_char CHR ''4'', of_char CHR ''5'', of_char CHR ''6'', 0, of_char CHR ''0'', of_char CHR ''B''],
      [of_char CHR ''7'', of_char CHR ''8'', of_char CHR ''9'', of_char CHR ''0'', 0, of_char CHR ''#''],
      [of_char CHR ''C'', of_char CHR ''A'', of_char CHR ''*'', of_char CHR ''B'', of_char CHR ''#'', 0]]"

text \<open>The search for the second highest tone: the index behind \<open>max\<close>, and \<open>best2\<close>.\<close>

definition second_best :: "(nat \<Rightarrow> nat \<Rightarrow> bool) \<Rightarrow> nat \<Rightarrow> nat" where
  "second_best gt best1 =
     snd (fold (\<lambda>i (maxi, best2). if i = best1 then (maxi, best2)
                                    else if gt i maxi then (i, i) else (maxi, best2))
            [0..<6] (if best1 \<noteq> 0 then 0 else 1, 0))"

definition mf_detect_block ::
  "mf_block_tests \<Rightarrow> mf_detect_state_t \<Rightarrow> dsp_fault + (cint \<times> mf_detect_state_t)" where
  "mf_detect_block t s =
     (let best1 = best_of (tone_gt t) 6;
          best2 = second_best (tone_gt t) best1;
          sofarsogood =
            ((\<forall>i \<in> set [0..<6]. i = best1 \<or> i = best2 \<or>
                 (\<not> relative_fails t best1 i \<and> \<not> relative_fails t best2 i)) \<and>
             \<not> harmonic_fails t best1 best1 \<and> \<not> harmonic_fails t best1 best2);
          hit = (if sofarsogood then ucast (mf_hit ! best1 ! best2) else 0);
          r = (if sofarsogood \<and> hit = hit3 s \<and> hit3 s \<noteq> hit2 s
               then store_digit (MAX_DTMF_DIGITS - 2) hit
                      (s\<lparr>mhit := hit, detected_digits := detected_digits s + 1\<rparr>)
               else Inr s)
      in case r of
           Inl e \<Rightarrow> Inl e
         | Inr s' \<Rightarrow>
             Inr (hit, s'\<lparr>hit1 := hit2 s', hit2 := hit3 s', hit3 := hit, current_sample := 0\<rparr>))"

fun mf_detect_blocks ::
  "mf_block_tests list \<Rightarrow> mf_detect_state_t \<Rightarrow> dsp_fault + mf_detect_state_t" where
  "mf_detect_blocks [] s = Inr s"
| "mf_detect_blocks (t # ts) s =
     (case mf_detect_block t s of
        Inl e \<Rightarrow> Inl e
      | Inr (hit, s') \<Rightarrow> mf_detect_blocks ts s')"

subsection \<open>Silence and noise run lengths\<close>

text \<open>
  \<open>abs(s[x])\<close> of a sample converted to \<open>int\<close>, and the division of two \<open>int\<close>s, which
  truncates towards zero. Signed overflow, which C leaves undefined, wraps in the model.
\<close>

definition abs_sample :: "16 word \<Rightarrow> cint" where
  "abs_sample v = (if (scast v :: cint) <s 0 then - scast v else scast v)"

definition cdiv :: "cint \<Rightarrow> cint \<Rightarrow> cint" where
  "cdiv a b = word_of_int (sint a sdiv sint b)"

text \<open>
  \<open>memmove(h, h + 1, sizeof(h) - sizeof(h[0])); h[DSP_HISTORY - 1] = v;\<close>: the
  entries move down by one, the last one stays and is then overwritten.
\<close>

definition shift_history :: "cint list \<Rightarrow> cint \<Rightarrow> cint list" where
  "shift_history h v = (drop 1 h @ drop (length h - 1) h)[nat (sint (DSP_HISTORY - 1)) := v]"

text \<open>
  \<open>static int __ast_dsp_silence(struct ast_dsp *dsp, short *s, int len, int *totalsilence)\<close>.
  \<open>s\<close> is the array of the caller. After the loop \<open>x\<close> is \<open>len\<close>, or 0 if \<open>len\<close> is not
  positive, and \<open>accum\<close> is divided by it. The function returns \<open>res\<close>; the value stored
  through \<open>totalsilence\<close>, when that pointer is given, is the field \<open>totalsilence\<close> of the
  state returned here.
\<close>

definition static_ast_dsp_silence ::
  "ast_dsp \<Rightarrow> 16 word list \<Rightarrow> cint \<Rightarrow> dsp_fault + (cint \<times> ast_dsp)" where
  "static_ast_dsp_silence dsp s len =
     (let x = (if 0 <s len then len else 0)
      in if length s < nat (sint x) then Inl Out_of_bounds
         else if x = 0 then Inl Division_by_zero
         else if cdiv (fold (\<lambda>v accum. accum + abs_sample v) (take (nat (sint x)) s) 0) x
                   <s threshold dsp
         then Inr (1,
                (if totalnoise dsp \<noteq> 0
                 then dsp\<lparr>totalsilence := totalsilence dsp + cdiv len 8,
                          historicnoise := shift_history (historicnoise dsp) (totalnoise dsp),
                          busymaybe := 1, totalnoise := 0\<rparr>
                 else dsp\<lparr>totalsilence := totalsilence dsp + cdiv len 8, totalnoise := 0\<rparr>))
         else Inr (0,
                (if totalsilence dsp \<noteq> 0
                 then dsp\<lparr>totalnoise := totalnoise dsp + cdiv len 8,
                          historicsilence := shift_history (historicsilence dsp) (totalsilence dsp),
                          busymaybe := 1, totalsilence := 0\<rparr>
                 else dsp\<lparr>totalnoise := totalnoise dsp + cdiv len 8, totalsilence := 0\<rparr>)))"

subsection \<open>ast_dsp_busydetect\<close>

text \<open>\<open>if (v < min) min = v;\<close> and \<open>if (v > max) max = v;\<close>\<close>

definition lower :: "cint \<Rightarrow> cint \<Rightarrow> cint" where
  "lower v m = (if v <s m then v else m)"

definition higher :: "cint \<Rightarrow> cint \<Rightarrow> cint" where
  "higher v m = (if m <s v then v else m)"

lemma next_index:
  fixes x :: cint
  assumes "x <s DSP_HISTORY"
  shows "sint (x + 1) = sint x + 1"
  using assms sint_add1_small [of x] by (simp add: word_sless_alt DSP_HISTORY_def)

text \<open>
  The loop \<open>for (x = DSP_HISTORY - dsp->busycount; x < DSP_HISTORY; x++)\<close> over the two
  histories, from \<open>x\<close> on, with \<open>min\<close> and \<open>max\<close> as they stand.
\<close>

function busy_scan ::
  "cint list \<Rightarrow> cint list \<Rightarrow> cint \<Rightarrow> cint \<Rightarrow> cint \<Rightarrow> dsp_fault + (cint \<times> cint)" where
  "busy_scan hs hn x mn mx =
     (if x <s DSP_HISTORY then
        (if x <s 0 \<or> length hs \<le> nat (sint x) \<or> length hn \<le> nat (sint x)
         then Inl Out_of_bounds
         else busy_scan hs hn (x + 1)
                (lower (hn ! nat (sint x)) (lower (hs ! nat (sint x)) mn))
                (higher (hn ! nat (sint x)) (higher (hs ! nat (sint x)) mx)))
      else Inr (mn, mx))"
  by pat_completeness auto
termination
proof (relation "measure (\<lambda>(hs, hn, x, mn, mx). nat (sint DSP_HISTORY - sint x))")
  show "wf (measure (\<lambda>(hs, hn, x, mn, mx). nat (sint DSP_HISTORY - sint x)))"
    by simp
next
  fix hs hn :: "cint list" and x mn mx :: cint
  assume "x <s DSP_HISTORY"
  then show "((hs, hn, x + 1, lower (hn ! nat (sint x)) (lower (hs ! nat (sint x)) mn),
               higher (hn ! nat (sint x)) (higher (hs ! nat (sint x)) mx)),
              hs, hn, x, mn, mx)
      \<in> measure (\<lambda>(hs, hn, x, mn, mx). nat (sint DSP_HISTORY - sint x))"
    using next_index [of x] by (simp add: word_sless_alt)
qed

declare busy_scan.simps [simp del]

definition ast_dsp_busydetect :: "ast_dsp \<Rightarrow> dsp_fault + (cint \<times> ast_dsp)" where
  "ast_dsp_busydetect dsp =
     (if busymaybe dsp \<noteq> 0 then
        (case busy_scan (historicsilence dsp) (historicnoise dsp)
                (DSP_HISTORY - busycount dsp) 9999 0 of
           Inl e \<Rightarrow> Inl e
         | Inr (mn, mx) \<Rightarrow>
             Inr (if mx - mn <s BUSY_THRESHOLD \<and> mx <s BUSY_MAX \<and> BUSY_MIN <s mn then 1 else 0,
                  dsp\<lparr>busymaybe := 0\<rparr>))
      else Inr (0, dsp))"

text \<open>\<open>void ast_dsp_set_busy_count(struct ast_dsp *dsp, int cadences)\<close>\<close>

definition ast_dsp_set_busy_count :: "ast_dsp \<Rightarrow> cint \<Rightarrow> ast_dsp" where
  "ast_dsp_set_busy_count dsp cadences =
     (let c1 = (if cadences <s 1 then 1 else cadences);
          c2 = (if DSP_HISTORY <s c1 then DSP_HISTORY else c1)
      in dsp\<lparr>busycount := c2\<rparr>)"

subsection \<open>Call progress\<close>

text \<open>
  \<open>__ast_dsp_call_progress\<close> feeds the samples to seven Goertzel filters and, each time
  \<open>GSAMP_SIZE = 183\<close> samples are complete, compares the energies. The outcomes of the
  comparisons of a block are inputs:
  \<^item> \<open>busy_pair\<close>: \<open>pair_there(hz_480, hz_620, hz_350, hz_440, dsp->genergy)\<close>;
  \<^item> \<open>ringing_pair\<close>: \<open>pair_there(hz_440, hz_480, hz_350, hz_620, dsp->genergy)\<close>;
  \<^item> \<open>dialtone_pair\<close>: \<open>pair_there(hz_350, hz_440, hz_480, hz_620, dsp->genergy)\<close>;
  \<^item> \<open>hz_950_there\<close>, \<open>hz_1400_there\<close>, \<open>hz_1800_there\<close>:
    \<open>hz_950 > TONE_MIN_THRESH * TONE_THRESH\<close>, and likewise;
  \<^item> \<open>energy_there\<close>: \<open>dsp->genergy > TONE_MIN_THRESH * TONE_THRESH\<close>.
\<close>

record progress_tests =
  busy_pair :: bool
  ringing_pair :: bool
  dialtone_pair :: bool
  hz_950_there :: bool
  hz_1400_there :: bool
  hz_1800_there :: bool
  energy_there :: bool

text \<open>
  The values \<open>AST_CONTROL_*\<close> that \<open>res\<close> takes are defined in a header that is not part
  of the sources; \<open>res\<close> is modelled as an optional value of the type below, \<open>None\<close> being
  the 0 it starts with.
\<close>

datatype control =
  AST_CONTROL_BUSY | AST_CONTROL_ANSWER | AST_CONTROL_RINGING | AST_CONTROL_CONGESTION

text \<open>
  The chain of tests that assigns \<open>newstate\<close>. \<open>newstate\<close> is a local variable of the
  function, declared without an initial value. The branches for 1400 Hz and 1800 Hz
  assign it only if \<open>tstate\<close> is the preceding special state; otherwise it keeps the
  value it has, which is the third argument.
\<close>

definition classify :: "progress_tests \<Rightarrow> cint \<Rightarrow> cint \<Rightarrow> cint" where
  "classify t tstate0 newstate =
     (if busy_pair t then TONE_STATE_BUSY
      else if ringing_pair t then TONE_STATE_RINGING
      else if dialtone_pair t then TONE_STATE_DIALTONE
      else if hz_950_there t then TONE_STATE_SPECIAL1
      else if hz_1400_there t then
        (if tstate0 = TONE_STATE_SPECIAL1 then TONE_STATE_SPECIAL2 else newstate)
      else if hz_1800_there t then
        (if tstate0 = TONE_STATE_SPECIAL2 then TONE_STATE_SPECIAL3 else newstate)
      else if energy_there t then TONE_STATE_TALKING
      else TONE_STATE_SILENCE)"

text \<open>
  The body of \<open>if (dsp->tcount == COUNT_THRESH)\<close>. The mask
  \<open>DSP_FEATURE_CALL_PROGRESS\<close> is defined in a header that is not part of the sources,
  so it is the parameter \<open>cp_bit\<close>.
\<close>

definition confirm :: "cint \<Rightarrow> control option \<Rightarrow> ast_dsp \<Rightarrow> control option \<times> ast_dsp" where
  "confirm cp_bit res dsp =
     (if tstate dsp = TONE_STATE_BUSY then
        (Some AST_CONTROL_BUSY, dsp\<lparr>features := features dsp AND NOT cp_bit\<rparr>)
      else if tstate dsp = TONE_STATE_TALKING then
        (Some AST_CONTROL_ANSWER, dsp\<lparr>features := features dsp AND NOT cp_bit\<rparr>)
      else if tstate dsp = TONE_STATE_RINGING then
        (Some AST_CONTROL_RINGING, dsp)
      else if tstate dsp = TONE_STATE_SPECIAL3 then
        (Some AST_CONTROL_CONGESTION, dsp\<lparr>features := features dsp AND NOT cp_bit\<rparr>)
      else (res, dsp))"

text \<open>The evaluation of a complete block: returns \<open>newstate\<close>, \<open>res\<close> and the state.\<close>

definition progress_block ::
  "cint \<Rightarrow> progress_tests \<Rightarrow> cint \<Rightarrow> control option \<Rightarrow> ast_dsp \<Rightarrow>
   cint \<times> control option \<times> ast_dsp" where
  "progress_block cp_bit t newstate res dsp =
     (let newstate' = classify t (tstate dsp) newstate
      in if newstate' = tstate dsp then
           (if tcount dsp + 1 = COUNT_THRESH
            then (newstate', confirm cp_bit res (dsp\<lparr>tcount := tcount dsp + 1\<rparr>))
            else (newstate', res, dsp\<lparr>tcount := tcount dsp + 1\<rparr>))
         else (newstate', res, dsp\<lparr>tstate := newstate', tcount := 1\<rparr>))"

text \<open>
  \<open>pass = len; if (pass > GSAMP_SIZE - dsp->gsamps) pass = GSAMP_SIZE - dsp->gsamps;\<close>
\<close>

definition samples_taken :: "cint \<Rightarrow> cint \<Rightarrow> cint" where
  "samples_taken g len = (if GSAMP_SIZE - g <s len then GSAMP_SIZE - g else len)"

text \<open>
  The loop \<open>while (len)\<close> ends: if \<open>pass\<close> is \<open>len\<close>, \<open>len\<close> becomes 0; otherwise the
  block is complete and \<open>gsamps\<close> becomes 0, after which \<open>len\<close>, now positive, decreases.
\<close>

definition progress_measure :: "cint \<Rightarrow> cint \<Rightarrow> nat" where
  "progress_measure g len =
     (if len = 0 then 0
      else if 0 \<le>s g \<and> g \<le>s GSAMP_SIZE
      then 1 + 2 * nat (sint len) + (if g = GSAMP_SIZE then 1 else 0)
      else 2 ^ 33)"

lemma progress_measure_end:
  assumes "len \<noteq> 0" and "samples_taken g len = len"
  shows "progress_measure g' (len - samples_taken g len) < progress_measure g len"
  using assms by (simp add: progress_measure_def)

lemma progress_measure_block:
  assumes "len \<noteq> 0"
  shows "progress_measure 0 (len - samples_taken g len) < progress_measure g len"
proof (cases "GSAMP_SIZE - g <s len")
  case False
  then have "samples_taken g len = len"
    by (simp add: samples_taken_def)
  with assms show ?thesis
    by (rule progress_measure_end)
next
  case True
  then have p: "samples_taken g len = GSAMP_SIZE - g"
    by (simp add: samples_taken_def)
  have small: "progress_measure 0 x < 2 ^ 33" for x
  proof -
    have "nat (sint x) < 2 ^ 31"
      using sint_lt [of x] by simp
    then show ?thesis
      by (simp add: progress_measure_def GSAMP_SIZE_def word_sle_eq)
  qed
  show ?thesis
  proof (cases "0 \<le>s g \<and> g \<le>s GSAMP_SIZE")
    case False
    with assms have "progress_measure g len = 2 ^ 33"
      by (auto simp: progress_measure_def)
    with small show ?thesis
      by simp
  next
    case normal: True
    then have g: "0 \<le> sint g" "sint g \<le> 183"
      by (simp_all add: word_sle_eq GSAMP_SIZE_def)
    then have d: "sint (GSAMP_SIZE - g) = 183 - sint g"
      using sint_diff_small [of GSAMP_SIZE g] by (simp add: GSAMP_SIZE_def)
    have lt: "183 - sint g < sint len"
      using True d by (simp add: word_sless_alt)
    then have l: "sint (len - (GSAMP_SIZE - g)) = sint len - (183 - sint g)"
      using sint_diff_small [of len "GSAMP_SIZE - g"] d g sint_lt [of len] by simp
    have "g = GSAMP_SIZE" if "sint g = 183"
    proof -
      have "sint g = sint GSAMP_SIZE"
        using that by (simp add: GSAMP_SIZE_def)
      then show ?thesis
        by (rule signed_word_eqI)
    qed
    then have "sint g < 183 \<or> g = GSAMP_SIZE"
      using g(2) by fastforce
    with assms normal lt g show ?thesis
      unfolding p by (auto simp: progress_measure_def l)
  qed
qed

text \<open>
  The loop, with the index \<open>k\<close> of the next block completed in this call, \<open>len\<close>,
  \<open>newstate\<close> and \<open>res\<close>. The samples only feed the filters, so the array \<open>s\<close> is not
  part of the model.
\<close>

function call_progress_loop ::
  "cint \<Rightarrow> (nat \<Rightarrow> progress_tests) \<Rightarrow> nat \<Rightarrow> ast_dsp \<Rightarrow> cint \<Rightarrow> cint \<Rightarrow> control option \<Rightarrow>
   control option \<times> ast_dsp" where
  "call_progress_loop cp_bit tests k dsp len newstate res =
     (if len = 0 then (res, dsp)
      else if gsamps dsp + samples_taken (gsamps dsp) len = GSAMP_SIZE then
        (case progress_block cp_bit (tests k) newstate res dsp of
           (newstate', res', dsp') \<Rightarrow>
             call_progress_loop cp_bit tests (Suc k) (dsp'\<lparr>gsamps := 0\<rparr>)
               (len - samples_taken (gsamps dsp) len) newstate' res')
      else call_progress_loop cp_bit tests k
             (dsp\<lparr>gsamps := gsamps dsp + samples_taken (gsamps dsp) len\<rparr>)
             (len - samples_taken (gsamps dsp) len) newstate res)"
  by pat_completeness auto
termination
proof (relation "measure (\<lambda>(cp_bit, tests, k, dsp, len, newstate, res).
    progress_measure (gsamps dsp) len)")
  show "wf (measure (\<lambda>(cp_bit, tests, k, dsp, len, newstate, res).
      progress_measure (gsamps dsp) len))"
    by simp
next
  fix cp_bit :: cint and tests :: "nat \<Rightarrow> progress_tests" and k :: nat and dsp :: ast_dsp
    and len newstate :: cint and res :: "control option" and x :: "cint \<times> control option \<times> ast_dsp"
    and newstate' :: cint and y :: "control option \<times> ast_dsp" and res' :: "control option"
    and dsp' :: ast_dsp
  assume "len \<noteq> 0"
  then show "((cp_bit, tests, Suc k, dsp'\<lparr>gsamps := 0\<rparr>, len - samples_taken (gsamps dsp) len,
                newstate', res'),
              cp_bit, tests, k, dsp, len, newstate, res)
      \<in> measure (\<lambda>(cp_bit, tests, k, dsp, len, newstate, res). progress_measure (gsamps dsp) len)"
    using progress_measure_block [of len "gsamps dsp"] by simp
next
  fix cp_bit :: cint and tests :: "nat \<Rightarrow> progress_tests" and k :: nat and dsp :: ast_dsp
    and len newstate :: cint and res :: "control option"
  assume len: "len \<noteq> 0"
    and "gsamps dsp + samples_taken (gsamps dsp) len \<noteq> GSAMP_SIZE"
  then have "samples_taken (gsamps dsp) len = len"
    by (auto simp: samples_taken_def split: if_splits)
  with len show "((cp_bit, tests, k, dsp\<lparr>gsamps := gsamps dsp + samples_taken (gsamps dsp) len\<rparr>,
                len - samples_taken (gsamps dsp) len, newstate, res),
              cp_bit, tests, k, dsp, len, newstate, res)
      \<in> measure (\<lambda>(cp_bit, tests, k, dsp, len, newstate, res). progress_measure (gsamps dsp) len)"
    using progress_measure_end [of len "gsamps dsp"] by simp
qed

declare call_progress_loop.simps [simp del]

text \<open>
  \<open>static int __ast_dsp_call_progress(struct ast_dsp *dsp, short *s, int len)\<close>.
  \<open>newstate0\<close> is the indeterminate value that \<open>newstate\<close> has when the function is
  entered.
\<close>

definition static_ast_dsp_call_progress ::
  "cint \<Rightarrow> cint \<Rightarrow> (nat \<Rightarrow> progress_tests) \<Rightarrow> ast_dsp \<Rightarrow> cint \<Rightarrow> control option \<times> ast_dsp" where
  "static_ast_dsp_call_progress cp_bit newstate0 tests dsp len =
     call_progress_loop cp_bit tests 0 dsp len newstate0 None"

subsection \<open>Well-formed detector states\<close>

text \<open>
  What the C types say and the records do not: \<open>digits\<close> has
  \<open>MAX_DTMF_DIGITS + 1 = 129\<close> characters, \<open>digit_hits\<close> has 16 counters, and
  \<open>current_digits\<close> lies between 0 and \<open>MAX_DTMF_DIGITS\<close>. The detector in use is the
  one that \<open>digitmode\<close> selects.
\<close>

definition queue_ok :: "'a mf_detect_state_t_scheme \<Rightarrow> bool" where
  "queue_ok s \<longleftrightarrow>
     0 \<le>s current_digits s \<and> current_digits s \<le>s MAX_DTMF_DIGITS \<and> length (digits s) = 129"

definition dtmf_ok :: "dtmf_detect_state_t \<Rightarrow> bool" where
  "dtmf_ok s \<longleftrightarrow> queue_ok s \<and> length (digit_hits s) = 16"

definition td_ok :: "cint \<Rightarrow> ast_dsp \<Rightarrow> bool" where
  "td_ok dsp_digitmode_mf dsp \<longleftrightarrow>
     (case td dsp of
        Td_mf s \<Rightarrow> digitmode dsp AND dsp_digitmode_mf \<noteq> 0 \<and> queue_ok s
      | Td_dtmf s \<Rightarrow> digitmode dsp AND dsp_digitmode_mf = 0 \<and> queue_ok s)"

text \<open>The queue of the detector in use.\<close>

definition td_queue :: "ast_dsp \<Rightarrow> 8 word list" where
  "td_queue dsp = (case td dsp of Td_mf s \<Rightarrow> queue s | Td_dtmf s \<Rightarrow> queue s)"

text \<open>
  \<open>queue_step limit s s'\<close>: \<open>s'\<close> is well formed, and if the queue of \<open>s\<close> has reached
  \<open>limit\<close> then \<open>s'\<close> has the same array and the same number of queued digits as \<open>s\<close>,
  and \<open>lost_digits\<close> has advanced as far as \<open>detected_digits\<close>.
\<close>

definition queue_step ::
  "cint \<Rightarrow> 'a mf_detect_state_t_scheme \<Rightarrow> 'a mf_detect_state_t_scheme \<Rightarrow> bool" where
  "queue_step limit s s' \<longleftrightarrow>
     queue_ok s' \<and>
     (\<not> current_digits s <s limit \<longrightarrow>
        digits s' = digits s \<and> current_digits s' = current_digits s \<and>
        lost_digits s' - lost_digits s = detected_digits s' - detected_digits s)"

text \<open>
  The histories have \<open>DSP_HISTORY = 5\<close> entries, and \<open>busycount\<close> lies between 1 and
  \<open>DSP_HISTORY\<close>, as \<open>ast_dsp_new\<close> (which sets 3) and \<open>ast_dsp_set_busy_count\<close> leave it.
\<close>

definition history_ok :: "ast_dsp \<Rightarrow> bool" where
  "history_ok dsp \<longleftrightarrow>
     length (historicsilence dsp) = 5 \<and> length (historicnoise dsp) = 5 \<and>
     1 \<le>s busycount dsp \<and> busycount dsp \<le>s DSP_HISTORY"

text \<open>
  The condition of the busy cadence as the specification words it: the run lengths in
  the last \<open>busycount\<close> slots of the two histories, their largest and their smallest
  value as integers, and the three limits.
\<close>

definition busy_window :: "ast_dsp \<Rightarrow> int set" where
  "busy_window dsp =
     sint ` (set (drop (5 - nat (sint (busycount dsp))) (historicsilence dsp)) \<union>
             set (drop (5 - nat (sint (busycount dsp))) (historicnoise dsp)))"

definition cadence_within_limits :: "ast_dsp \<Rightarrow> bool" where
  "cadence_within_limits dsp \<longleftrightarrow>
     Max (busy_window dsp) - Min (busy_window dsp) < 100 \<and>
     Max (busy_window dsp) < 1100 \<and> 80 < Min (busy_window dsp)"

text \<open>The run lengths in the slots from \<open>k\<close> on.\<close>

definition slots :: "cint list \<Rightarrow> cint list \<Rightarrow> nat \<Rightarrow> int set" where
  "slots hs hn k = sint ` (set (drop k hs) \<union> set (drop k hn))"

subsection \<open>Example states\<close>

text \<open>A DTMF detector with the digits \<open>1\<close> and \<open>2\<close> queued, in a DSP in DTMF mode.\<close>

definition two_queued :: ast_dsp where
  "two_queued =
     \<lparr>threshold = 256, totalsilence = 0, totalnoise = 0, features = 0, busymaybe = 0,
      busycount = 3, historicnoise = replicate 5 0, historicsilence = replicate 5 0,
      gsamps = 0, tstate = 0, tcount = 0, digitmode = 0, thinkdigit = 0,
      td = Td_dtmf
        \<lparr>hit1 = 0, hit2 = 0, hit3 = 0, hit4 = 0, mhit = 0, current_sample = 0,
         digits = [49, 50] @ replicate 127 0, current_digits = 2, detected_digits = 2,
         lost_digits = 0, fax_hits = 0, digit_hits = replicate 16 0\<rparr>\<rparr>"

text \<open>
  A DTMF detector and an MF detector whose queues have reached their limits (128 and
  126 times the digit \<open>1\<close>), each having seen \<open>1\<close> in the last block and nothing in the
  block before.
\<close>

definition full_dtmf :: dtmf_detect_state_t where
  "full_dtmf =
     \<lparr>hit1 = 0, hit2 = 0, hit3 = 49, hit4 = 0, mhit = 0, current_sample = 0,
      digits = replicate 128 49 @ [0], current_digits = 128, detected_digits = 128,
      lost_digits = 0, fax_hits = 0, digit_hits = replicate 16 0\<rparr>"

definition full_mf :: mf_detect_state_t where
  "full_mf =
     \<lparr>hit1 = 0, hit2 = 0, hit3 = 49, hit4 = 0, mhit = 0, current_sample = 0,
      digits = replicate 126 49 @ replicate 3 0, current_digits = 126, detected_digits = 126,
      lost_digits = 0, fax_hits = 0\<rparr>"

text \<open>
  A DTMF block in which row 0 and column 0 win and pass every test (the digit \<open>1\<close>),
  and an MF block in which tone 1 is the highest and tone 0 the second highest and both
  pass every test (the digit \<open>1\<close>).
\<close>

definition dtmf_block_1 :: dtmf_block_tests where
  "dtmf_block_1 =
     \<lparr>row_gt = (\<lambda>i j. False), col_gt = (\<lambda>i j. False), level_and_twist = (\<lambda>r c. True),
      peak_exceeds = (\<lambda>i r c. False), harmonics_ok = (\<lambda>r c. True),
      fax_level = False, fax_harmonic = False\<rparr>"

definition mf_block_1 :: mf_block_tests where
  "mf_block_1 =
     \<lparr>tone_gt = (\<lambda>i j. i = 1 \<and> j = 0), relative_fails = (\<lambda>b i. False),
      harmonic_fails = (\<lambda>b c. False)\<rparr>"

text \<open>
  A DSP in a run of noise that has lasted 515 ms, after two cadences of about half a
  second of noise and three of silence; and the same DSP after a block of 8 silent
  samples: the run of noise is in the history, and the flag \<open>busymaybe\<close> is set.
\<close>

definition noise_ending :: ast_dsp where
  "noise_ending =
     \<lparr>threshold = 256, totalsilence = 0, totalnoise = 515, features = 0, busymaybe = 0,
      busycount = 3, historicnoise = [0, 0, 0, 500, 505],
      historicsilence = [0, 0, 500, 510, 520],
      gsamps = 0, tstate = 0, tcount = 0, digitmode = 0, thinkdigit = 0,
      td = Td_dtmf
        \<lparr>hit1 = 0, hit2 = 0, hit3 = 0, hit4 = 0, mhit = 0, current_sample = 0,
         digits = replicate 129 0, current_digits = 0, detected_digits = 0,
         lost_digits = 0, fax_hits = 0, digit_hits = replicate 16 0\<rparr>\<rparr>"

definition busy_dsp :: ast_dsp where
  "busy_dsp =
     \<lparr>threshold = 256, totalsilence = 1, totalnoise = 0, features = 0, busymaybe = 1,
      busycount = 3, historicnoise = [0, 0, 500, 505, 515],
      historicsilence = [0, 0, 500, 510, 520],
      gsamps = 0, tstate = 0, tcount = 0, digitmode = 0, thinkdigit = 0,
      td = Td_dtmf
        \<lparr>hit1 = 0, hit2 = 0, hit3 = 0, hit4 = 0, mhit = 0, current_sample = 0,
         digits = replicate 129 0, current_digits = 0, detected_digits = 0,
         lost_digits = 0, fax_hits = 0, digit_hits = replicate 16 0\<rparr>\<rparr>"

text \<open>
  A DSP as \<open>ast_dsp_new\<close> leaves it, with call progress enabled (taking 4 for
  \<open>DSP_FEATURE_CALL_PROGRESS\<close>).
\<close>

definition fresh_dsp :: ast_dsp where
  "fresh_dsp =
     \<lparr>threshold = 256, totalsilence = 0, totalnoise = 0, features = 4, busymaybe = 0,
      busycount = 3, historicnoise = replicate 5 0, historicsilence = replicate 5 0,
      gsamps = 0, tstate = 0, tcount = 0, digitmode = 0, thinkdigit = 0,
      td = Td_dtmf
        \<lparr>hit1 = 0, hit2 = 0, hit3 = 0, hit4 = 0, mhit = 0, current_sample = 0,
         digits = replicate 129 0, current_digits = 0, detected_digits = 0,
         lost_digits = 0, fax_hits = 0, digit_hits = replicate 16 0\<rparr>\<rparr>"

text \<open>
  Blocks: one in which no test succeeds, one in which the ringing pair is there, and
  one in which only 1400 Hz is there; and a call whose first two blocks are ringing
  and whose third has only 1400 Hz.
\<close>

definition silent_block :: progress_tests where
  "silent_block =
     \<lparr>busy_pair = False, ringing_pair = False, dialtone_pair = False, hz_950_there = False,
      hz_1400_there = False, hz_1800_there = False, energy_there = False\<rparr>"

definition ringing_block :: progress_tests where
  "ringing_block = silent_block\<lparr>ringing_pair := True\<rparr>"

definition hz_1400_block :: progress_tests where
  "hz_1400_block = silent_block\<lparr>hz_1400_there := True\<rparr>"

definition ring_ring_1400 :: "nat \<Rightarrow> progress_tests" where
  "ring_ring_1400 k = (if k < 2 then ringing_block else if k = 2 then hz_1400_block else silent_block)"

section \<open>Properties of the frame hooks\<close>

subsection \<open>What flagging and callbacks leave unchanged\<close>

text \<open>
  \<open>same_hook a b\<close>: \<open>b\<close> is the entry \<open>a\<close> after callbacks ran and detach requests were
  recorded. The id and the callbacks are the same, only \<open>data\<close> may differ, and a flag
  that was set stays set.
\<close>

definition same_hook :: "'d ast_framehook \<Rightarrow> 'd ast_framehook \<Rightarrow> bool" where
  "same_hook a b \<longleftrightarrow>
     id_fh b = id_fh a \<and> event_cb (i_fh b) = event_cb (i_fh a) \<and>
     destroy_cb (i_fh b) = destroy_cb (i_fh a) \<and> version (i_fh b) = version (i_fh a) \<and>
     (detach_and_destroy_me a \<longrightarrow> detach_and_destroy_me b)"

lemma same_hook_refl [simp]: "same_hook a a"
  by (simp add: same_hook_def)

lemma same_hook_trans: "same_hook a b \<Longrightarrow> same_hook b c \<Longrightarrow> same_hook a c"
  by (simp add: same_hook_def)

lemma same_hooks_refl [simp]: "list_all2 same_hook hs hs"
  by (simp add: list_all2_refl)

lemma same_hooks_trans:
  "list_all2 same_hook hs hs' \<Longrightarrow> list_all2 same_hook hs' hs'' \<Longrightarrow> list_all2 same_hook hs hs''"
  using list_all2_trans [of same_hook same_hook same_hook] same_hook_trans by blast

lemma same_hooks_detach_traverse: "list_all2 same_hook hs (fst (detach_traverse x hs))"
proof (induction hs)
  case Nil
  then show ?case by simp
next
  case (Cons fh hs)
  have "same_hook fh (fh\<lparr>detach_and_destroy_me := True\<rparr>)"
    by (simp add: same_hook_def)
  with Cons show ?case by simp
qed

lemma same_hooks_detach_calls: "list_all2 same_hook hs (detach_calls xs hs)"
  unfolding detach_calls_def
proof (induction xs arbitrary: hs)
  case Nil
  then show ?case by simp
next
  case (Cons x xs)
  have "list_all2 same_hook hs (fst (detach_traverse (word_of_int x) hs))"
    by (rule same_hooks_detach_traverse)
  with Cons [of "fst (detach_traverse (word_of_int x) hs)"] show ?case
    by (auto intro: same_hooks_trans)
qed

lemma same_hooks_data_update:
  "list_all2 same_hook hs (hs[k := (hs ! k)\<lparr>i_fh := (i_fh (hs ! k))\<lparr>data := d\<rparr>\<rparr>])"
  by (cases "k < length hs") (auto simp: list_all2_conv_all_nth nth_list_update same_hook_def)

lemma same_hooks_after_callback:
  "list_all2 same_hook hs
     (detach_calls dets (hs[k := (hs ! k)\<lparr>i_fh := (i_fh (hs ! k))\<lparr>data := d\<rparr>\<rparr>]))"
  by (rule same_hooks_trans [OF same_hooks_data_update same_hooks_detach_calls])

definition hooks_ok :: "'d ast_framehook list \<Rightarrow> bool" where
  "hooks_ok hs \<longleftrightarrow> (\<forall>h \<in> set hs. event_cb (i_fh h) \<noteq> None)"

lemma same_hooks_ok: "list_all2 same_hook hs hs' \<Longrightarrow> hooks_ok hs \<Longrightarrow> hooks_ok hs'"
  by (induction rule: list_all2_induct) (auto simp: hooks_ok_def same_hook_def)

lemma same_hooks_ids: "list_all2 same_hook hs hs' \<Longrightarrow> map id_fh hs' = map id_fh hs"
  by (induction rule: list_all2_induct) (auto simp: same_hook_def)

lemma hooks_ok_unlink: "hooks_ok hs \<Longrightarrow> hooks_ok (take k hs @ drop (Suc k) hs)"
  by (auto simp: hooks_ok_def dest: in_set_takeD in_set_dropD)

lemma destroy_same_hooks:
  "framehook_detach_and_destroy fh hs = Inr r \<Longrightarrow> list_all2 same_hook hs (fst r)"
  unfolding framehook_detach_and_destroy_def
  by (cases "event_cb (i_fh fh)") (auto split: prod.splits simp: same_hooks_detach_calls)

lemma destroy_no_fault:
  "event_cb (i_fh fh) \<noteq> None \<Longrightarrow> \<exists>r. framehook_detach_and_destroy fh hs = Inr r"
  unfolding framehook_detach_and_destroy_def
  by (cases "event_cb (i_fh fh)") (auto split: prod.splits)

subsection \<open>One pass over the list\<close>

text \<open>The branches of the traversal, one equation each.\<close>

lemma traverse_end:
  "length hs \<le> k \<Longrightarrow> framehook_list_traverse hs k num skip frame event tr = Pass_done hs tr"
  by (simp add: framehook_list_traverse.simps)

lemma traverse_destroy:
  "k < length hs \<Longrightarrow> detach_and_destroy_me (hs ! k) \<Longrightarrow>
   framehook_list_traverse hs k num skip frame event tr =
     (case framehook_detach_and_destroy (hs ! k) (take k hs @ drop (Suc k) hs) of
        Inl e \<Rightarrow> Pass_fault e
      | Inr r \<Rightarrow> framehook_list_traverse (fst r) k num skip frame event (tr @ snd r))"
  by (simp add: framehook_list_traverse.simps [of hs k])

lemma traverse_out_of_bounds:
  "k < length hs \<Longrightarrow> \<not> detach_and_destroy_me (hs ! k) \<Longrightarrow> length skip \<le> num \<Longrightarrow>
   framehook_list_traverse hs k num skip frame event tr = Pass_fault Skip_out_of_bounds"
  by (simp add: framehook_list_traverse.simps [of hs k])

lemma traverse_skip:
  "k < length hs \<Longrightarrow> \<not> detach_and_destroy_me (hs ! k) \<Longrightarrow> num < length skip \<Longrightarrow> skip ! num \<Longrightarrow>
   framehook_list_traverse hs k num skip frame event tr =
     framehook_list_traverse hs (Suc k) (Suc num) skip frame event tr"
  by (simp add: framehook_list_traverse.simps [of hs k])

lemma traverse_null:
  "k < length hs \<Longrightarrow> \<not> detach_and_destroy_me (hs ! k) \<Longrightarrow> num < length skip \<Longrightarrow> \<not> skip ! num \<Longrightarrow>
   event_cb (i_fh (hs ! k)) = None \<Longrightarrow>
   framehook_list_traverse hs k num skip frame event tr = Pass_fault Null_event_cb"
  by (simp add: framehook_list_traverse.simps [of hs k])

lemma traverse_call:
  "k < length hs \<Longrightarrow> \<not> detach_and_destroy_me (hs ! k) \<Longrightarrow> num < length skip \<Longrightarrow> \<not> skip ! num \<Longrightarrow>
   event_cb (i_fh (hs ! k)) = Some cb \<Longrightarrow> cb frame event (data (i_fh (hs ! k))) = (fr, d, dets) \<Longrightarrow>
   framehook_list_traverse hs k num skip frame event tr =
     (if fr \<noteq> frame
      then Pass_break
             (detach_calls dets (hs[k := (hs ! k)\<lparr>i_fh := (i_fh (hs ! k))\<lparr>data := d\<rparr>\<rparr>]))
             (skip[num := True]) fr (tr @ [Event_cb (id_fh (hs ! k)) event frame])
      else framehook_list_traverse
             (detach_calls dets (hs[k := (hs ! k)\<lparr>i_fh := (i_fh (hs ! k))\<lparr>data := d\<rparr>\<rparr>]))
             (Suc k) (Suc num) skip frame event (tr @ [Event_cb (id_fh (hs ! k)) event frame]))"
  by (simp add: framehook_list_traverse.simps [of hs k])

text \<open>What a pass keeps: no fault, sound hooks, and a break sets one clear slot.\<close>

definition pass_ok ::
  "'d ast_framehook list \<Rightarrow> nat \<Rightarrow> nat \<Rightarrow> bool list \<Rightarrow> 'd pass \<Rightarrow> bool" where
  "pass_ok hs k num skip r =
     (case r of
        Pass_done hs' tr' \<Rightarrow> hooks_ok hs' \<and> length hs' \<le> length hs
      | Pass_break hs' skip' fr tr' \<Rightarrow>
          hooks_ok hs' \<and> length hs' \<le> length hs \<and>
          (\<exists>j. num \<le> j \<and> j < num + (length hs - k) \<and> j < length skip \<and> \<not> skip ! j \<and>
               skip' = skip[j := True])
      | Pass_fault e \<Rightarrow> False)"

lemma pass_ok_mono:
  assumes "pass_ok hs0 k0 num0 skip r" and "length hs0 \<le> length hs" and "num \<le> num0"
    and "num0 + (length hs0 - k0) \<le> num + (length hs - k)"
  shows "pass_ok hs k num skip r"
proof (cases r)
  case (Pass_done hs' tr')
  with assms show ?thesis by (simp add: pass_ok_def)
next
  case (Pass_break hs' skip' fr tr')
  with assms(1) obtain j where j: "num0 \<le> j" "j < num0 + (length hs0 - k0)" "j < length skip"
      "\<not> skip ! j" "skip' = skip[j := True]"
    and rest: "hooks_ok hs'" "length hs' \<le> length hs0"
    by (auto simp: pass_ok_def)
  have "num \<le> j \<and> j < num + (length hs - k) \<and> j < length skip \<and> \<not> skip ! j \<and>
      skip' = skip[j := True]"
    using j assms(3,4) by simp
  then have "\<exists>j. num \<le> j \<and> j < num + (length hs - k) \<and> j < length skip \<and> \<not> skip ! j \<and>
      skip' = skip[j := True]" ..
  with Pass_break rest assms(2) show ?thesis
    by (simp add: pass_ok_def)
next
  case (Pass_fault e)
  with assms show ?thesis by (simp add: pass_ok_def)
qed

lemma traverse_pass_ok:
  "hooks_ok hs \<Longrightarrow> num + (length hs - k) \<le> length skip \<Longrightarrow>
   pass_ok hs k num skip (framehook_list_traverse hs k num skip frame event tr)"
proof (induction hs k num skip frame event tr rule: framehook_list_traverse.induct)
  case (1 hs k num skip frame event tr)
  show ?case
  proof (cases "length hs \<le> k")
    case True
    with "1.prems" show ?thesis
      by (simp add: traverse_end pass_ok_def)
  next
    case False
    then have inlist: "k < length hs" by simp
    then have cb: "event_cb (i_fh (hs ! k)) \<noteq> None"
      using "1.prems"(1) by (simp add: hooks_ok_def)
    show ?thesis
    proof (cases "detach_and_destroy_me (hs ! k)")
      case True
      obtain r where r: "framehook_detach_and_destroy (hs ! k) (take k hs @ drop (Suc k) hs) = Inr r"
        using destroy_no_fault [OF cb] by blast
      have same: "list_all2 same_hook (take k hs @ drop (Suc k) hs) (fst r)"
        using destroy_same_hooks [OF r] .
      then have len: "length (fst r) = length hs - 1"
        using inlist by (auto dest!: list_all2_lengthD)
      have ok: "hooks_ok (fst r)"
        using same_hooks_ok [OF same hooks_ok_unlink [OF "1.prems"(1)]] .
      have "pass_ok (fst r) k num skip
              (framehook_list_traverse (fst r) k num skip frame event (tr @ snd r))"
        using "1.IH"(1) [OF False True r ok] "1.prems"(2) len by simp
      then have "pass_ok hs k num skip
              (framehook_list_traverse (fst r) k num skip frame event (tr @ snd r))"
        by (rule pass_ok_mono) (use len in auto)
      then show ?thesis
        by (simp add: traverse_destroy [OF inlist True] r)
    next
      case live: False
      have inskip: "num < length skip"
        using "1.prems"(2) inlist by simp
      show ?thesis
      proof (cases "skip ! num")
        case True
        have "pass_ok hs (Suc k) (Suc num) skip
                (framehook_list_traverse hs (Suc k) (Suc num) skip frame event tr)"
          using "1.IH"(2) [OF False live _ True "1.prems"(1)] inskip "1.prems"(2) inlist by simp
        then have "pass_ok hs k num skip
                (framehook_list_traverse hs (Suc k) (Suc num) skip frame event tr)"
          by (rule pass_ok_mono) (use inlist in auto)
        then show ?thesis
          by (simp add: traverse_skip [OF inlist live inskip True])
      next
        case clear: False
        obtain cbf where cbf: "event_cb (i_fh (hs ! k)) = Some cbf"
          using cb by blast
        obtain fr d dets where out: "cbf frame event (data (i_fh (hs ! k))) = (fr, d, dets)"
          by (cases "cbf frame event (data (i_fh (hs ! k)))") auto
        define hs' where "hs' = detach_calls dets (hs[k := (hs ! k)\<lparr>i_fh := (i_fh (hs ! k))\<lparr>data := d\<rparr>\<rparr>])"
        have same: "list_all2 same_hook hs hs'"
          unfolding hs'_def by (rule same_hooks_after_callback)
        have ok: "hooks_ok hs'"
          using same_hooks_ok [OF same "1.prems"(1)] .
        have len: "length hs' = length hs"
          unfolding hs'_def by simp
        show ?thesis
        proof (cases "fr = frame")
          case True
          have "pass_ok hs' (Suc k) (Suc num) skip
                  (framehook_list_traverse hs' (Suc k) (Suc num) skip frame event
                     (tr @ [Event_cb (id_fh (hs ! k)) event frame]))"
            unfolding hs'_def
            using "1.IH"(3) [OF False live _ clear cbf out [symmetric] refl _ ok [unfolded hs'_def]]
              True inskip "1.prems"(2) inlist
            by simp
          then have "pass_ok hs k num skip
                  (framehook_list_traverse hs' (Suc k) (Suc num) skip frame event
                     (tr @ [Event_cb (id_fh (hs ! k)) event frame]))"
            by (rule pass_ok_mono) (use inlist len in auto)
          then show ?thesis
            by (simp add: traverse_call [OF inlist live inskip clear cbf out] True hs'_def)
        next
          case False
          have "pass_ok hs k num skip
                  (Pass_break hs' (skip[num := True]) fr (tr @ [Event_cb (id_fh (hs ! k)) event frame]))"
            unfolding pass_ok_def using ok len inlist inskip clear by auto
          then show ?thesis
            by (simp add: traverse_call [OF inlist live inskip clear cbf out] False hs'_def)
        qed
      qed
    qed
  qed
qed

lemma clear_slots_take_update:
  "j < n \<Longrightarrow> j < length skip \<Longrightarrow> \<not> skip ! j \<Longrightarrow>
   Suc (clear_slots (take n (skip[j := True]))) = clear_slots (take n skip)"
  using clear_slots_update [of j "take n skip"] by (simp add: take_update_swap)

lemma clear_slots_replicate: "clear_slots (replicate m False) = m"
  by (simp add: clear_slots_def)

lemma loop_passes:
  "hooks_ok hs \<Longrightarrow> length hs \<le> length skip \<Longrightarrow> length hs \<le> n \<Longrightarrow>
   \<exists>fr hs' tr' p'. framehook_list_loop hs skip frame event tr p = Inr (fr, hs', tr', p') \<and>
     hooks_ok hs' \<and> length hs' \<le> length hs \<and> p < p' \<and>
     p' \<le> p + clear_slots (take n skip) + 1"
proof (induction hs skip frame event tr p rule: framehook_list_loop.induct)
  case (1 hs skip frame event tr passes)
  have ok: "pass_ok hs 0 0 skip (framehook_list_traverse hs 0 0 skip frame event tr)"
    using traverse_pass_ok [of hs 0 0 skip frame event tr] "1.prems" by simp
  show ?case
  proof (cases "framehook_list_traverse hs 0 0 skip frame event tr")
    case (Pass_done hs' tr')
    with ok show ?thesis
      by (simp add: framehook_list_loop.simps [of hs] pass_ok_def)
  next
    case (Pass_break hs' skip' fr tr')
    with ok obtain j where j: "j < length hs" "j < length skip" "\<not> skip ! j" "skip' = skip[j := True]"
      and rest: "hooks_ok hs'" "length hs' \<le> length hs"
      by (auto simp: pass_ok_def)
    have slots: "Suc (clear_slots (take n skip')) = clear_slots (take n skip)"
      using clear_slots_take_update [of j n skip] j "1.prems"(3) by simp
    have "\<exists>fr' hs'' tr'' p'.
        framehook_list_loop hs' skip' fr event tr' (Suc passes) = Inr (fr', hs'', tr'', p') \<and>
        hooks_ok hs'' \<and> length hs'' \<le> length hs' \<and> Suc passes < p' \<and>
        p' \<le> Suc passes + clear_slots (take n skip') + 1"
      using "1.IH" [OF Pass_break rest(1)] rest(2) j(4) "1.prems"(2,3) by simp
    then obtain fr' hs'' tr'' p' where
      r: "framehook_list_loop hs' skip' fr event tr' (Suc passes) = Inr (fr', hs'', tr'', p')"
      and r': "hooks_ok hs''" "length hs'' \<le> length hs'"
        "p' \<le> Suc passes + clear_slots (take n skip') + 1" "Suc passes < p'"
      by blast
    have "p' \<le> passes + clear_slots (take n skip) + 1"
      using r'(3) slots by simp
    with r r'(1,2,4) rest(2) Pass_break show ?thesis
      by (simp add: framehook_list_loop.simps [of hs])
  next
    case (Pass_fault e)
    with ok show ?thesis by (simp add: pass_ok_def)
  qed
qed

subsection \<open>Termination and the number of passes\<close>

text \<open>
  A list as \<open>ast_framehook_attach\<close> builds it: every entry has an event callback, and
  \<open>count\<close> is at least the number of entries, so that \<open>skip\<close> has a slot for each.
\<close>

definition list_ok :: "'d ast_framehook_list \<Rightarrow> bool" where
  "list_ok l \<longleftrightarrow> hooks_ok (list_fh l) \<and> length (list_fh l) \<le> unat (count l)"

lemma push_event_passes:
  assumes "list_ok l"
  shows "\<exists>fr l' tr p. framehook_list_push_event (Some l) frame event = Inr (fr, Some l', tr, p) \<and>
     list_ok l' \<and> count l' = count l \<and> id_count l' = id_count l \<and>
     length (list_fh l') \<le> length (list_fh l) \<and> 1 \<le> p \<and> p \<le> length (list_fh l) + 1"
proof -
  from assms have "hooks_ok (list_fh l)" and len: "length (list_fh l) \<le> unat (count l)"
    by (simp_all add: list_ok_def)
  then obtain fr hs' tr' p' where
    r: "framehook_list_loop (list_fh l) (replicate (unat (count l)) False) frame event [] 0 =
          Inr (fr, hs', tr', p')"
    and r': "hooks_ok hs'" "length hs' \<le> length (list_fh l)"
      "p' \<le> 0 + clear_slots (take (length (list_fh l)) (replicate (unat (count l)) False)) + 1"
      "0 < p'"
    using loop_passes [of "list_fh l" "replicate (unat (count l)) False" "length (list_fh l)"
        frame event "[]" 0]
    by auto
  have "p' \<le> length (list_fh l) + 1"
    using r'(3) len by (simp add: clear_slots_replicate min_absorb1)
  moreover have "list_ok (l\<lparr>list_fh := hs'\<rparr>)"
    using r'(1,2) len by (simp add: list_ok_def)
  ultimately show ?thesis
    using r r'(2,4) by (simp add: framehook_list_push_event_def)
qed

text \<open>
  Claim C7, amended. On a sound list the dispatch returns, and it returns after at
  least one and at most \<open>n + 1\<close> passes, where \<open>n\<close> is the number of entries: every
  pass but the last sets a slot of \<open>skip\<close> that was clear and lies below \<open>n\<close>, and the
  last pass, which finds nothing substituted, is always run.
\<close>

theorem push_event_passes_bounded:
  "list_ok l \<Longrightarrow>
   \<exists>fr l' tr p. framehook_list_push_event (Some l) frame event = Inr (fr, Some l', tr, p) \<and>
     1 \<le> p \<and> p \<le> length (list_fh l) + 1"
  using push_event_passes [of l frame event] by blast

theorem push_event_passes_bounded_witness:
  "list_ok two_hooks \<and>
   (\<exists>fr l' tr p.
      framehook_list_push_event (Some two_hooks) 100 AST_FRAMEHOOK_EVENT_WRITE =
        Inr (fr, Some l', tr, p) \<and> 1 \<le> p \<and> p \<le> 3)"
proof -
  have ok: "list_ok two_hooks"
    by (simp add: list_ok_def hooks_ok_def two_hooks_def entry_def hook_of_def)
  have "length (list_fh two_hooks) + 1 = 3"
    by (simp add: two_hooks_def)
  with ok show ?thesis
    using push_event_passes_bounded [OF ok, of 100 AST_FRAMEHOOK_EVENT_WRITE] by simp
qed

text \<open>
  The claim as it stands bounds the passes by the number of hooks. A list with one
  hook that substitutes needs two: the pass in which the hook replaces frame 100 by
  frame 200, and the pass that skips it and ends the loop.
\<close>

theorem one_hook_two_passes:
  "framehook_list_push_event (Some one_substituting) 100 AST_FRAMEHOOK_EVENT_READ =
     Inr (200, Some one_substituting, [Event_cb 1 AST_FRAMEHOOK_EVENT_READ 100], 2) \<and>
   length (list_fh one_substituting) = 1 \<and> count one_substituting = 1"
  by (simp add: one_substituting_def framehook_list_push_event_def framehook_list_loop.simps
      framehook_list_traverse.simps entry_def hook_of_def substituting_def detach_calls_def)

subsection \<open>What a dispatch calls on one hook\<close>

text \<open>
  \<open>calls_on x tr\<close> are the entries of a log that concern the hook with id \<open>x\<close>: the
  invocations of its event callback and of its destroy callback, and its release.
  \<open>destroy_calls x d\<close> is what \<open>framehook_detach_and_destroy\<close> logs for that hook, where
  \<open>d\<close> tells whether it has a destroy callback. \<open>flagged_in x d hs\<close>: the list holds
  a hook with id \<open>x\<close> whose flag is set.
\<close>

fun about :: "32 word \<Rightarrow> call \<Rightarrow> bool" where
  "about x (Event_cb y ev f) = (y = x)"
| "about x (Destroy_cb y) = (y = x)"
| "about x (Frfree f) = False"
| "about x (Free_hook y) = (y = x)"

definition calls_on :: "32 word \<Rightarrow> call list \<Rightarrow> call list" where
  "calls_on x tr = filter (about x) tr"

definition destroy_calls :: "32 word \<Rightarrow> bool \<Rightarrow> call list" where
  "destroy_calls x d =
     [Event_cb x AST_FRAMEHOOK_EVENT_DETACHED 0] @ (if d then [Destroy_cb x] else []) @ [Free_hook x]"

definition flagged_in :: "32 word \<Rightarrow> bool \<Rightarrow> 'd ast_framehook list \<Rightarrow> bool" where
  "flagged_in x d hs \<longleftrightarrow>
     (\<exists>h \<in> set hs. id_fh h = x \<and> detach_and_destroy_me h \<and> destroy_cb (i_fh h) = d)"

fun pass_result :: "'d pass \<Rightarrow> ('d ast_framehook list \<times> call list) option" where
  "pass_result (Pass_done hs tr) = Some (hs, tr)"
| "pass_result (Pass_break hs skip fr tr) = Some (hs, tr)"
| "pass_result (Pass_fault e) = None"

lemma calls_on_append [simp]: "calls_on x (tr @ tr') = calls_on x tr @ calls_on x tr'"
  by (simp add: calls_on_def)

lemma calls_on_Nil [simp]: "calls_on x [] = []"
  by (simp add: calls_on_def)

lemma calls_on_event [simp]:
  "calls_on x [Event_cb y ev f] = (if y = x then [Event_cb y ev f] else [])"
  by (simp add: calls_on_def)

lemma destroy_calls_on:
  "framehook_detach_and_destroy fh hs = Inr r \<Longrightarrow>
   calls_on x (snd r) =
     (if id_fh fh = x then destroy_calls x (destroy_cb (i_fh fh)) else [])"
  unfolding framehook_detach_and_destroy_def
  by (cases "event_cb (i_fh fh)")
    (auto split: prod.splits simp: calls_on_def destroy_calls_def)

lemma same_hooks_flagged:
  "list_all2 same_hook hs hs' \<Longrightarrow> flagged_in x d hs \<Longrightarrow> flagged_in x d hs'"
  by (induction rule: list_all2_induct) (auto simp: flagged_in_def same_hook_def)

lemma same_hooks_id_set: "list_all2 same_hook hs hs' \<Longrightarrow> id_fh ` set hs' = id_fh ` set hs"
  using same_hooks_ids [of hs hs'] by (metis list.set_map)

lemma split_at:
  "k < length hs \<Longrightarrow> hs = take k hs @ hs ! k # drop (Suc k) hs"
  by (simp add: id_take_nth_drop)

lemma unlink_ids:
  "k < length hs \<Longrightarrow>
   id_fh ` set (take k hs @ drop (Suc k) hs) \<subseteq> id_fh ` set hs"
  by (auto dest: in_set_takeD in_set_dropD)

lemma unlink_distinct:
  "distinct (map id_fh hs) \<Longrightarrow> distinct (map id_fh (take k hs @ drop (Suc k) hs))"
proof (cases "k < length hs")
  case True
  assume d: "distinct (map id_fh hs)"
  have "hs = take k hs @ hs ! k # drop (Suc k) hs"
    using True by (rule split_at)
  then have "distinct (map id_fh (take k hs @ hs ! k # drop (Suc k) hs))"
    using d by simp
  then show ?thesis by auto
next
  case False
  assume "distinct (map id_fh hs)"
  with False show ?thesis by simp
qed

lemma unlink_removes_id:
  assumes "distinct (map id_fh hs)" and "k < length hs"
  shows "id_fh (hs ! k) \<notin> id_fh ` set (take k hs @ drop (Suc k) hs)"
proof -
  have "hs = take k hs @ hs ! k # drop (Suc k) hs"
    using assms(2) by (rule split_at)
  then have "distinct (map id_fh (take k hs @ hs ! k # drop (Suc k) hs))"
    using assms(1) by simp
  then show ?thesis by auto
qed


text \<open>
  The list after the callback of entry \<open>k\<close> returned: its \<open>data\<close> is updated, and the
  detach calls it made are recorded.
\<close>

definition after_callback :: "'d ast_framehook list \<Rightarrow> nat \<Rightarrow> 'd \<Rightarrow> int list \<Rightarrow> 'd ast_framehook list" where
  "after_callback hs k d dets =
     detach_calls dets (hs[k := (hs ! k)\<lparr>i_fh := (i_fh (hs ! k))\<lparr>data := d\<rparr>\<rparr>])"

text \<open>
  Reasoning about a pass, one branch of the traversal at a time: \<open>Q\<close> relates the
  state at the cursor to the result of the pass from there.
\<close>

lemma traverse_rule [case_names End Destroy_fault Destroy Out_of_bounds Skip Null Break Next]:
  assumes "\<And>hs k num tr. length hs \<le> k \<Longrightarrow> Q hs k num tr (Pass_done hs tr)"
    and "\<And>hs k num tr e. k < length hs \<Longrightarrow> detach_and_destroy_me (hs ! k) \<Longrightarrow>
          framehook_detach_and_destroy (hs ! k) (take k hs @ drop (Suc k) hs) = Inl e \<Longrightarrow>
          Q hs k num tr (Pass_fault e)"
    and "\<And>hs k num tr r R. k < length hs \<Longrightarrow> detach_and_destroy_me (hs ! k) \<Longrightarrow>
          framehook_detach_and_destroy (hs ! k) (take k hs @ drop (Suc k) hs) = Inr r \<Longrightarrow>
          R = framehook_list_traverse (fst r) k num skip frame event (tr @ snd r) \<Longrightarrow>
          Q (fst r) k num (tr @ snd r) R \<Longrightarrow> Q hs k num tr R"
    and "\<And>hs k num tr. k < length hs \<Longrightarrow> \<not> detach_and_destroy_me (hs ! k) \<Longrightarrow>
          length skip \<le> num \<Longrightarrow> Q hs k num tr (Pass_fault Skip_out_of_bounds)"
    and "\<And>hs k num tr R. k < length hs \<Longrightarrow> \<not> detach_and_destroy_me (hs ! k) \<Longrightarrow>
          num < length skip \<Longrightarrow> skip ! num \<Longrightarrow>
          R = framehook_list_traverse hs (Suc k) (Suc num) skip frame event tr \<Longrightarrow>
          Q hs (Suc k) (Suc num) tr R \<Longrightarrow> Q hs k num tr R"
    and "\<And>hs k num tr. k < length hs \<Longrightarrow> \<not> detach_and_destroy_me (hs ! k) \<Longrightarrow>
          num < length skip \<Longrightarrow> \<not> skip ! num \<Longrightarrow> event_cb (i_fh (hs ! k)) = None \<Longrightarrow>
          Q hs k num tr (Pass_fault Null_event_cb)"
    and "\<And>hs k num tr cb fr d dets. k < length hs \<Longrightarrow> \<not> detach_and_destroy_me (hs ! k) \<Longrightarrow>
          num < length skip \<Longrightarrow> \<not> skip ! num \<Longrightarrow> event_cb (i_fh (hs ! k)) = Some cb \<Longrightarrow>
          cb frame event (data (i_fh (hs ! k))) = (fr, d, dets) \<Longrightarrow> fr \<noteq> frame \<Longrightarrow>
          Q hs k num tr
            (Pass_break (after_callback hs k d dets) (skip[num := True]) fr
               (tr @ [Event_cb (id_fh (hs ! k)) event frame]))"
    and "\<And>hs k num tr cb d dets R. k < length hs \<Longrightarrow> \<not> detach_and_destroy_me (hs ! k) \<Longrightarrow>
          num < length skip \<Longrightarrow> \<not> skip ! num \<Longrightarrow> event_cb (i_fh (hs ! k)) = Some cb \<Longrightarrow>
          cb frame event (data (i_fh (hs ! k))) = (frame, d, dets) \<Longrightarrow>
          R = framehook_list_traverse (after_callback hs k d dets) (Suc k) (Suc num) skip frame
                event (tr @ [Event_cb (id_fh (hs ! k)) event frame]) \<Longrightarrow>
          Q (after_callback hs k d dets) (Suc k) (Suc num)
            (tr @ [Event_cb (id_fh (hs ! k)) event frame]) R \<Longrightarrow>
          Q hs k num tr R"
  shows "Q hs k num tr (framehook_list_traverse hs k num skip frame event tr)"
  using assms
proof (induction hs k num skip frame event tr rule: framehook_list_traverse.induct)
  case (1 hs k num skip frame event tr)
  note rules = "1.prems"
  show ?case
  proof (cases "length hs \<le> k")
    case True
    then show ?thesis
      by (simp add: traverse_end rules(1))
  next
    case False
    then have inlist: "k < length hs" by simp
    show ?thesis
    proof (cases "detach_and_destroy_me (hs ! k)")
      case True
      show ?thesis
      proof (cases "framehook_detach_and_destroy (hs ! k) (take k hs @ drop (Suc k) hs)")
        case (Inl e)
        then show ?thesis
          using rules(2) [OF inlist True Inl] by (simp add: traverse_destroy [OF inlist True])
      next
        case (Inr r)
        have "Q (fst r) k num (tr @ snd r)
            (framehook_list_traverse (fst r) k num skip frame event (tr @ snd r))"
          by (rule "1.IH"(1) [OF False True Inr rules])
        then show ?thesis
          using rules(3) [OF inlist True Inr refl] by (simp add: traverse_destroy [OF inlist True] Inr)
      qed
    next
      case live: False
      show ?thesis
      proof (cases "length skip \<le> num")
        case True
        then show ?thesis
          using rules(4) [OF inlist live True] by (simp add: traverse_out_of_bounds [OF inlist live])
      next
        case False
        then have inskip: "num < length skip" by simp
        show ?thesis
        proof (cases "skip ! num")
          case True
          have "Q hs (Suc k) (Suc num) tr
              (framehook_list_traverse hs (Suc k) (Suc num) skip frame event tr)"
            by (rule "1.IH"(2) [OF \<open>\<not> length hs \<le> k\<close> live False True rules])
          then show ?thesis
            using rules(5) [OF inlist live inskip True refl]
            by (simp add: traverse_skip [OF inlist live inskip True])
        next
          case clear: False
          show ?thesis
          proof (cases "event_cb (i_fh (hs ! k))")
            case None
            then show ?thesis
              using rules(6) [OF inlist live inskip clear None]
              by (simp add: traverse_null [OF inlist live inskip clear])
          next
            case (Some cb)
            obtain fr d dets where out: "cb frame event (data (i_fh (hs ! k))) = (fr, d, dets)"
              by (cases "cb frame event (data (i_fh (hs ! k)))") auto
            show ?thesis
            proof (cases "fr = frame")
              case True
              have "Q (after_callback hs k d dets) (Suc k) (Suc num)
                  (tr @ [Event_cb (id_fh (hs ! k)) event frame])
                  (framehook_list_traverse (after_callback hs k d dets) (Suc k) (Suc num) skip
                     frame event (tr @ [Event_cb (id_fh (hs ! k)) event frame]))"
                unfolding after_callback_def
                using True
                by (intro "1.IH"(3) [OF \<open>\<not> length hs \<le> k\<close> live False clear Some out [symmetric]
                      refl _ rules]) simp
              then show ?thesis
                using rules(8) [OF inlist live inskip clear Some out [unfolded True] refl] True
                by (simp add: traverse_call [OF inlist live inskip clear Some out]
                    after_callback_def)
            next
              case False
              then show ?thesis
                using rules(7) [OF inlist live inskip clear Some out False]
                by (simp add: traverse_call [OF inlist live inskip clear Some out]
                    after_callback_def)
            qed
          qed
        qed
      qed
    qed
  qed
qed

lemma same_hooks_callback: "list_all2 same_hook hs (after_callback hs k d dets)"
  unfolding after_callback_def by (rule same_hooks_after_callback)

lemma traverse_absent:
  assumes "x \<notin> id_fh ` set hs"
    and "pass_result (framehook_list_traverse hs k num skip frame event tr) = Some (hs', tr')"
  shows "x \<notin> id_fh ` set hs' \<and> calls_on x tr' = calls_on x tr"
proof -
  let ?Q = "\<lambda>hs k num tr R. x \<notin> id_fh ` set hs \<longrightarrow>
    (\<forall>hs' tr'. pass_result R = Some (hs', tr') \<longrightarrow>
       x \<notin> id_fh ` set hs' \<and> calls_on x tr' = calls_on x tr)"
  have "?Q hs k num tr (framehook_list_traverse hs k num skip frame event tr)"
  proof (rule traverse_rule [where Q = ?Q], goal_cases)
    case (3 hs k num tr r R)
    show ?case
    proof (intro impI allI)
      fix hs' tr'
      assume x: "x \<notin> id_fh ` set hs" and R: "pass_result R = Some (hs', tr')"
      have "id_fh ` set (fst r) = id_fh ` set (take k hs @ drop (Suc k) hs)"
        using destroy_same_hooks [OF 3(3)] by (rule same_hooks_id_set)
      then have absent: "x \<notin> id_fh ` set (fst r)"
        using x unlink_ids [OF 3(1)] by blast
      have "id_fh (hs ! k) \<noteq> x"
        using x nth_mem [OF 3(1)] by auto
      then have "calls_on x (snd r) = []"
        using destroy_calls_on [OF 3(3), of x] by simp
      with 3(5) absent R show "x \<notin> id_fh ` set hs' \<and> calls_on x tr' = calls_on x tr"
        by simp
    qed
  next
    case (7 hs k num tr cb fr d dets)
    show ?case
    proof (intro impI allI)
      fix hs' tr'
      assume x: "x \<notin> id_fh ` set hs"
        and R: "pass_result (Pass_break (after_callback hs k d dets) (skip[num := True]) fr
                 (tr @ [Event_cb (id_fh (hs ! k)) event frame])) = Some (hs', tr')"
      have "id_fh (hs ! k) \<noteq> x"
        using x nth_mem [OF 7(1)] by auto
      moreover have "x \<notin> id_fh ` set (after_callback hs k d dets)"
        using x same_hooks_id_set [OF same_hooks_callback, of hs k d dets] by simp
      ultimately show "x \<notin> id_fh ` set hs' \<and> calls_on x tr' = calls_on x tr"
        using R by auto
    qed
  next
    case (8 hs k num tr cb d dets R)
    show ?case
    proof (intro impI allI)
      fix hs' tr'
      assume x: "x \<notin> id_fh ` set hs" and R: "pass_result R = Some (hs', tr')"
      have "id_fh (hs ! k) \<noteq> x"
        using x nth_mem [OF 8(1)] by auto
      moreover have "x \<notin> id_fh ` set (after_callback hs k d dets)"
        using x same_hooks_id_set [OF same_hooks_callback, of hs k d dets] by simp
      ultimately show "x \<notin> id_fh ` set hs' \<and> calls_on x tr' = calls_on x tr"
        using 8(8) R by simp
    qed
  next
    case (1 hs k num tr)
    show ?case by simp
  next
    case (2 hs k num tr e)
    show ?case by simp
  next
    case (4 hs k num tr)
    show ?case by simp
  next
    case (5 hs k num tr R)
    then show ?case by simp
  next
    case (6 hs k num tr)
    show ?case by simp
  qed
  with assms show ?thesis by simp
qed

lemma callback_ids [simp]: "map id_fh (after_callback hs k d dets) = map id_fh hs"
  using same_hooks_ids [OF same_hooks_callback, of hs k d dets] .

lemma destroy_ids:
  "framehook_detach_and_destroy fh hs = Inr r \<Longrightarrow> map id_fh (fst r) = map id_fh hs"
  using destroy_same_hooks [of fh hs r] same_hooks_ids [of hs "fst r"] by simp

lemma traverse_distinct:
  assumes "distinct (map id_fh hs)"
    and "pass_result (framehook_list_traverse hs k num skip frame event tr) = Some (hs', tr')"
  shows "distinct (map id_fh hs')"
proof -
  let ?Q = "\<lambda>hs k num tr R. distinct (map id_fh hs) \<longrightarrow>
    (\<forall>hs' tr'. pass_result R = Some (hs', tr') \<longrightarrow> distinct (map id_fh hs'))"
  have "?Q hs k num tr (framehook_list_traverse hs k num skip frame event tr)"
  proof (rule traverse_rule [where Q = ?Q], goal_cases)
    case (3 hs k num tr r R)
    show ?case
    proof (intro impI allI)
      fix hs' tr'
      assume "distinct (map id_fh hs)" and R: "pass_result R = Some (hs', tr')"
      then have "distinct (map id_fh (fst r))"
        using destroy_ids [OF 3(3)] unlink_distinct [of hs k] by simp
      with 3(5) R show "distinct (map id_fh hs')" by blast
    qed
  next
    case (5 hs k num tr R)
    from 5(6) show ?case .
  next
    case (7 hs k num tr cb fr d dets)
    show ?case by simp
  next
    case (8 hs k num tr cb d dets R)
    from 8(8) show ?case by (simp only: callback_ids)
  qed simp_all
  with assms show ?thesis by blast
qed

lemma distinct_ids_same:
  "distinct (map id_fh hs) \<Longrightarrow> a \<in> set hs \<Longrightarrow> b \<in> set hs \<Longrightarrow> id_fh a = id_fh b \<Longrightarrow> a = b"
  by (auto simp: distinct_map dest: inj_onD)

lemma flagged_in_ids: "flagged_in x d hs \<Longrightarrow> x \<in> id_fh ` set hs"
  by (auto simp: flagged_in_def)

text \<open>A hook flagged anywhere in the list: after the pass it is either destroyed or untouched.\<close>

lemma traverse_flagged:
  assumes "distinct (map id_fh hs)" and "flagged_in x d hs"
    and "pass_result (framehook_list_traverse hs k num skip frame event tr) = Some (hs', tr')"
  shows "(x \<notin> id_fh ` set hs' \<and> calls_on x tr' = calls_on x tr @ destroy_calls x d) \<or>
         (flagged_in x d hs' \<and> calls_on x tr' = calls_on x tr)"
proof -
  let ?Q = "\<lambda>hs k num tr R. distinct (map id_fh hs) \<and> flagged_in x d hs \<longrightarrow>
    (\<forall>hs' tr'. pass_result R = Some (hs', tr') \<longrightarrow>
       (x \<notin> id_fh ` set hs' \<and> calls_on x tr' = calls_on x tr @ destroy_calls x d) \<or>
       (flagged_in x d hs' \<and> calls_on x tr' = calls_on x tr))"
  have "?Q hs k num tr (framehook_list_traverse hs k num skip frame event tr)"
  proof (rule traverse_rule [where Q = ?Q], goal_cases)
    case (3 hs k num tr r R)
    show ?case
    proof (intro impI allI)
      fix hs' tr'
      assume a: "distinct (map id_fh hs) \<and> flagged_in x d hs"
        and R: "pass_result R = Some (hs', tr')"
      from a obtain h where h: "h \<in> set hs" "id_fh h = x" "detach_and_destroy_me h"
          "destroy_cb (i_fh h) = d"
        by (auto simp: flagged_in_def)
      have ids: "map id_fh (fst r) = map id_fh (take k hs @ drop (Suc k) hs)"
        using destroy_ids [OF 3(3)] .
      have dist: "distinct (map id_fh (fst r))"
        using ids a unlink_distinct [of hs k] by simp
      show "(x \<notin> id_fh ` set hs' \<and> calls_on x tr' = calls_on x tr @ destroy_calls x d) \<or>
            (flagged_in x d hs' \<and> calls_on x tr' = calls_on x tr)"
      proof (cases "id_fh (hs ! k) = x")
        case True
        then have "hs ! k = h"
          using distinct_ids_same [of hs "hs ! k" h] a h nth_mem [OF 3(1)] by simp
        then have log: "calls_on x (snd r) = destroy_calls x d"
          using destroy_calls_on [OF 3(3), of x] True h(4) by simp
        have "x \<notin> id_fh ` set (take k hs @ drop (Suc k) hs)"
          using unlink_removes_id [of hs k] a 3(1) True by simp
        then have "x \<notin> id_fh ` set (fst r)"
          using ids by (metis list.set_map)
        then have "x \<notin> id_fh ` set hs' \<and> calls_on x tr' = calls_on x (tr @ snd r)"
          using traverse_absent [of x "fst r" k num skip frame event "tr @ snd r" hs' tr'] R 3(4)
          by simp
        with log show ?thesis by simp
      next
        case False
        then have "h \<noteq> hs ! k"
          using h(2) by auto
        then have "h \<in> set (take k hs @ drop (Suc k) hs)"
          using h(1) split_at [OF 3(1)]
          by (metis Un_iff insert_iff list.set(2) set_append)
        then have "flagged_in x d (take k hs @ drop (Suc k) hs)"
          using h by (auto simp: flagged_in_def)
        then have "flagged_in x d (fst r)"
          using same_hooks_flagged [OF destroy_same_hooks [OF 3(3)], of x d] by simp
        moreover have "calls_on x (snd r) = []"
          using destroy_calls_on [OF 3(3), of x] False by simp
        ultimately show ?thesis
          using 3(5) dist R by simp
      qed
    qed
  next
    case (7 hs k num tr cb fr d' dets)
    show ?case
    proof (intro impI allI)
      fix hs' tr'
      assume a: "distinct (map id_fh hs) \<and> flagged_in x d hs"
        and R: "pass_result (Pass_break (after_callback hs k d' dets) (skip[num := True]) fr
                 (tr @ [Event_cb (id_fh (hs ! k)) event frame])) = Some (hs', tr')"
      from a obtain h where h: "h \<in> set hs" "id_fh h = x" "detach_and_destroy_me h"
        by (auto simp: flagged_in_def)
      have "id_fh (hs ! k) \<noteq> x"
        using distinct_ids_same [of hs "hs ! k" h] a h nth_mem [OF 7(1)] 7(2) by auto
      moreover have "flagged_in x d (after_callback hs k d' dets)"
        using same_hooks_flagged [OF same_hooks_callback [of hs k d' dets], of x d] a by simp
      ultimately show "(x \<notin> id_fh ` set hs' \<and> calls_on x tr' = calls_on x tr @ destroy_calls x d) \<or>
            (flagged_in x d hs' \<and> calls_on x tr' = calls_on x tr)"
        using R by auto
    qed
  next
    case (8 hs k num tr cb d' dets R)
    show ?case
    proof (intro impI allI)
      fix hs' tr'
      assume a: "distinct (map id_fh hs) \<and> flagged_in x d hs"
        and R: "pass_result R = Some (hs', tr')"
      from a obtain h where h: "h \<in> set hs" "id_fh h = x" "detach_and_destroy_me h"
        by (auto simp: flagged_in_def)
      have "id_fh (hs ! k) \<noteq> x"
        using distinct_ids_same [of hs "hs ! k" h] a h nth_mem [OF 8(1)] 8(2) by auto
      moreover have "flagged_in x d (after_callback hs k d' dets)"
        using same_hooks_flagged [OF same_hooks_callback [of hs k d' dets], of x d] a by simp
      ultimately show "(x \<notin> id_fh ` set hs' \<and> calls_on x tr' = calls_on x tr @ destroy_calls x d) \<or>
            (flagged_in x d hs' \<and> calls_on x tr' = calls_on x tr)"
        using 8(8) a R by simp
    qed
  qed simp_all
  with assms show ?thesis by simp
qed

lemma flagged_ahead_step:
  assumes "k < length hs" and "flagged_in x d (drop k hs)"
    and "\<not> detach_and_destroy_me (hs ! k) \<or> id_fh (hs ! k) \<noteq> x"
  shows "flagged_in x d (drop (Suc k) hs)"
proof -
  have "drop k hs = hs ! k # drop (Suc k) hs"
    using assms(1) by (simp add: Cons_nth_drop_Suc)
  with assms(2,3) show ?thesis
    by (auto simp: flagged_in_def)
qed

lemma flagged_ahead_unlink:
  assumes "k < length hs" and "list_all2 same_hook (take k hs @ drop (Suc k) hs) hs1"
    and "flagged_in x d (drop (Suc k) hs)"
  shows "flagged_in x d (drop k hs1)"
proof -
  have "list_all2 same_hook (drop k (take k hs @ drop (Suc k) hs)) (drop k hs1)"
    using assms(2) by (rule list_all2_dropI)
  moreover have "drop k (take k hs @ drop (Suc k) hs) = drop (Suc k) hs"
    using assms(1) by simp
  ultimately show ?thesis
    using same_hooks_flagged [of "drop (Suc k) hs" "drop k hs1" x d] assms(3) by simp
qed

text \<open>A pass that reaches the end of the list has destroyed every hook that was flagged ahead of it.\<close>

lemma traverse_done_reaps:
  assumes "distinct (map id_fh hs)" and "flagged_in x d (drop k hs)"
    and "framehook_list_traverse hs k num skip frame event tr = Pass_done hs' tr'"
  shows "x \<notin> id_fh ` set hs'"
proof -
  let ?Q = "\<lambda>hs k num tr R. distinct (map id_fh hs) \<and> flagged_in x d (drop k hs) \<longrightarrow>
    (\<forall>hs' tr'. R = Pass_done hs' tr' \<longrightarrow> x \<notin> id_fh ` set hs')"
  have "?Q hs k num tr (framehook_list_traverse hs k num skip frame event tr)"
  proof (rule traverse_rule [where Q = ?Q], goal_cases)
    case (1 hs k num tr)
    then show ?case by (simp add: flagged_in_def)
  next
    case (3 hs k num tr r R)
    show ?case
    proof (intro impI allI)
      fix hs' tr'
      assume a: "distinct (map id_fh hs) \<and> flagged_in x d (drop k hs)"
        and R: "R = Pass_done hs' tr'"
      have ids: "map id_fh (fst r) = map id_fh (take k hs @ drop (Suc k) hs)"
        using destroy_ids [OF 3(3)] .
      have dist: "distinct (map id_fh (fst r))"
        using ids a unlink_distinct [of hs k] by simp
      show "x \<notin> id_fh ` set hs'"
      proof (cases "id_fh (hs ! k) = x")
        case True
        have "x \<notin> id_fh ` set (take k hs @ drop (Suc k) hs)"
          using unlink_removes_id [of hs k] a 3(1) True by simp
        then have "x \<notin> id_fh ` set (fst r)"
          using ids by (metis list.set_map)
        then show ?thesis
          using traverse_absent [of x "fst r" k num skip frame event "tr @ snd r" hs' tr'] R 3(4)
          by simp
      next
        case False
        then have "flagged_in x d (drop (Suc k) hs)"
          using flagged_ahead_step [OF 3(1)] a by simp
        then have "flagged_in x d (drop k (fst r))"
          using flagged_ahead_unlink [OF 3(1) destroy_same_hooks [OF 3(3)]] by simp
        with 3(5) dist R show ?thesis by blast
      qed
    qed
  next
    case (5 hs k num tr R)
    show ?case
    proof (intro impI allI)
      fix hs' tr'
      assume a: "distinct (map id_fh hs) \<and> flagged_in x d (drop k hs)"
        and R: "R = Pass_done hs' tr'"
      have "flagged_in x d (drop (Suc k) hs)"
        using flagged_ahead_step [OF 5(1)] a 5(2) by simp
      with 5(6) a R show "x \<notin> id_fh ` set hs'" by blast
    qed
  next
    case (8 hs k num tr cb d' dets R)
    show ?case
    proof (intro impI allI)
      fix hs' tr'
      assume a: "distinct (map id_fh hs) \<and> flagged_in x d (drop k hs)"
        and R: "R = Pass_done hs' tr'"
      have "flagged_in x d (drop (Suc k) hs)"
        using flagged_ahead_step [OF 8(1)] a 8(2) by simp
      moreover have "list_all2 same_hook (drop (Suc k) hs) (drop (Suc k) (after_callback hs k d' dets))"
        using same_hooks_callback [of hs k d' dets] by (rule list_all2_dropI)
      ultimately have "flagged_in x d (drop (Suc k) (after_callback hs k d' dets))"
        by (rule same_hooks_flagged [rotated])
      moreover have "distinct (map id_fh (after_callback hs k d' dets))"
        using a by simp
      ultimately show "x \<notin> id_fh ` set hs'"
        using 8(8) R by blast
    qed
  qed simp_all
  with assms show ?thesis by blast
qed

text \<open>The passes together.\<close>

lemma loop_absent:
  "x \<notin> id_fh ` set hs \<Longrightarrow>
   framehook_list_loop hs skip frame event tr p = Inr (fr, hs', tr', p') \<Longrightarrow>
   x \<notin> id_fh ` set hs' \<and> calls_on x tr' = calls_on x tr"
proof (induction hs skip frame event tr p rule: framehook_list_loop.induct)
  case (1 hs skip frame event tr passes)
  show ?case
  proof (cases "framehook_list_traverse hs 0 0 skip frame event tr")
    case (Pass_done hs1 tr1)
    then have "x \<notin> id_fh ` set hs1 \<and> calls_on x tr1 = calls_on x tr"
      using traverse_absent [of x hs 0 0 skip frame event tr hs1 tr1] "1.prems"(1) by simp
    with Pass_done "1.prems"(2) show ?thesis
      by (simp add: framehook_list_loop.simps [of hs])
  next
    case (Pass_break hs1 skip1 fr1 tr1)
    then have a: "x \<notin> id_fh ` set hs1 \<and> calls_on x tr1 = calls_on x tr"
      using traverse_absent [of x hs 0 0 skip frame event tr hs1 tr1] "1.prems"(1) by simp
    have "framehook_list_loop hs1 skip1 fr1 event tr1 (Suc passes) = Inr (fr, hs', tr', p')"
      using "1.prems"(2) Pass_break by (simp add: framehook_list_loop.simps [of hs])
    with "1.IH" [OF Pass_break] a show ?thesis by simp
  next
    case (Pass_fault e)
    with "1.prems"(2) show ?thesis
      by (simp add: framehook_list_loop.simps [of hs])
  qed
qed

lemma loop_flagged:
  "distinct (map id_fh hs) \<Longrightarrow> flagged_in x d hs \<Longrightarrow>
   framehook_list_loop hs skip frame event tr p = Inr (fr, hs', tr', p') \<Longrightarrow>
   x \<notin> id_fh ` set hs' \<and> calls_on x tr' = calls_on x tr @ destroy_calls x d"
proof (induction hs skip frame event tr p rule: framehook_list_loop.induct)
  case (1 hs skip frame event tr passes)
  show ?case
  proof (cases "framehook_list_traverse hs 0 0 skip frame event tr")
    case (Pass_done hs1 tr1)
    have gone: "x \<notin> id_fh ` set hs1"
      using traverse_done_reaps [of hs x d 0 0 skip frame event tr hs1 tr1] "1.prems"(1,2) Pass_done
      by simp
    have "(x \<notin> id_fh ` set hs1 \<and> calls_on x tr1 = calls_on x tr @ destroy_calls x d) \<or>
          (flagged_in x d hs1 \<and> calls_on x tr1 = calls_on x tr)"
      using traverse_flagged [of hs x d 0 0 skip frame event tr hs1 tr1] "1.prems"(1,2) Pass_done
      by simp
    with gone have "calls_on x tr1 = calls_on x tr @ destroy_calls x d"
      using flagged_in_ids [of x d hs1] by blast
    with gone Pass_done "1.prems"(3) show ?thesis
      by (simp add: framehook_list_loop.simps [of hs])
  next
    case (Pass_break hs1 skip1 fr1 tr1)
    have rest: "framehook_list_loop hs1 skip1 fr1 event tr1 (Suc passes) = Inr (fr, hs', tr', p')"
      using "1.prems"(3) Pass_break by (simp add: framehook_list_loop.simps [of hs])
    have dist: "distinct (map id_fh hs1)"
      using traverse_distinct [of hs 0 0 skip frame event tr hs1 tr1] "1.prems"(1) Pass_break
      by simp
    have "(x \<notin> id_fh ` set hs1 \<and> calls_on x tr1 = calls_on x tr @ destroy_calls x d) \<or>
          (flagged_in x d hs1 \<and> calls_on x tr1 = calls_on x tr)"
      using traverse_flagged [of hs x d 0 0 skip frame event tr hs1 tr1] "1.prems"(1,2) Pass_break
      by simp
    then show ?thesis
    proof
      assume a: "x \<notin> id_fh ` set hs1 \<and> calls_on x tr1 = calls_on x tr @ destroy_calls x d"
      then show ?thesis
        using loop_absent [OF _ rest, of x] by simp
    next
      assume a: "flagged_in x d hs1 \<and> calls_on x tr1 = calls_on x tr"
      then show ?thesis
        using "1.IH" [OF Pass_break dist _ rest] by simp
    qed
  next
    case (Pass_fault e)
    with "1.prems"(3) show ?thesis
      by (simp add: framehook_list_loop.simps [of hs])
  qed
qed

text \<open>Teardown destroys every hook of the list, flagged or not.\<close>

definition present_in :: "32 word \<Rightarrow> bool \<Rightarrow> 'd ast_framehook list \<Rightarrow> bool" where
  "present_in x d hs \<longleftrightarrow> (\<exists>h \<in> set hs. id_fh h = x \<and> destroy_cb (i_fh h) = d)"

lemma flagged_in_present: "flagged_in x d hs \<Longrightarrow> present_in x d hs"
  by (auto simp: flagged_in_def present_in_def)

lemma same_hooks_present:
  "list_all2 same_hook hs hs' \<Longrightarrow> present_in x d hs \<Longrightarrow> present_in x d hs'"
  by (induction rule: list_all2_induct) (auto simp: present_in_def same_hook_def)

lemma list_destroy_absent:
  "x \<notin> id_fh ` set hs \<Longrightarrow> list_destroy_traverse hs tr = Inr tr' \<Longrightarrow>
   calls_on x tr' = calls_on x tr"
proof (induction hs tr rule: list_destroy_traverse.induct)
  case (1 tr)
  then show ?case by simp
next
  case (2 fh hs tr)
  show ?case
  proof (cases "framehook_detach_and_destroy fh hs")
    case (Inl e)
    with "2.prems"(2) show ?thesis by simp
  next
    case (Inr r)
    have "map id_fh (fst r) = map id_fh hs"
      using destroy_ids [OF Inr] .
    then have "id_fh ` set (fst r) = id_fh ` set hs"
      by (metis list.set_map)
    then have absent: "x \<notin> id_fh ` set (fst r)"
      using "2.prems"(1) by simp
    have "calls_on x (snd r) = []"
      using destroy_calls_on [OF Inr, of x] "2.prems"(1) by auto
    moreover have "calls_on x tr' = calls_on x (tr @ snd r)"
      using "2.IH" [OF Inr absent] "2.prems"(2) Inr by simp
    ultimately show ?thesis by simp
  qed
qed

lemma list_destroy_present:
  "distinct (map id_fh hs) \<Longrightarrow> present_in x d hs \<Longrightarrow> list_destroy_traverse hs tr = Inr tr' \<Longrightarrow>
   calls_on x tr' = calls_on x tr @ destroy_calls x d"
proof (induction hs tr rule: list_destroy_traverse.induct)
  case (1 tr)
  then show ?case by (simp add: present_in_def)
next
  case (2 fh hs tr)
  show ?case
  proof (cases "framehook_detach_and_destroy fh hs")
    case (Inl e)
    with "2.prems"(3) show ?thesis by simp
  next
    case (Inr r)
    have ids: "map id_fh (fst r) = map id_fh hs"
      using destroy_ids [OF Inr] .
    then have idset: "id_fh ` set (fst r) = id_fh ` set hs"
      by (metis list.set_map)
    have rest: "list_destroy_traverse (fst r) (tr @ snd r) = Inr tr'"
      using "2.prems"(3) Inr by simp
    show ?thesis
    proof (cases "id_fh fh = x")
      case True
      then have "x \<notin> id_fh ` set hs"
        using "2.prems"(1) by auto
      then have "\<forall>h \<in> set hs. id_fh h \<noteq> x"
        by auto
      then have "destroy_cb (i_fh fh) = d"
        using "2.prems"(2) True by (auto simp: present_in_def)
      then have "calls_on x (snd r) = destroy_calls x d"
        using destroy_calls_on [OF Inr, of x] True by simp
      moreover have "calls_on x tr' = calls_on x (tr @ snd r)"
        using list_destroy_absent [OF _ rest, of x] \<open>x \<notin> id_fh ` set hs\<close> idset by simp
      ultimately show ?thesis by simp
    next
      case False
      then have "present_in x d hs"
        using "2.prems"(2) by (auto simp: present_in_def)
      then have "present_in x d (fst r)"
        using same_hooks_present [OF destroy_same_hooks [OF Inr], of x d] by simp
      moreover have "distinct (map id_fh (fst r))"
        using ids "2.prems"(1) by simp
      moreover have "calls_on x (snd r) = []"
        using destroy_calls_on [OF Inr, of x] False by simp
      ultimately show ?thesis
        using "2.IH" [OF Inr _ _ rest] by simp
    qed
  qed
qed

lemma detach_traverse_flags:
  "snd (detach_traverse x hs) = 0 \<Longrightarrow>
   \<exists>h \<in> set (fst (detach_traverse x hs)). id_fh h = x \<and> detach_and_destroy_me h"
  by (induction hs) (auto split: if_splits)

lemma detach_traverse_result: "snd (detach_traverse x hs) = 0 \<or> snd (detach_traverse x hs) = -1"
  by (induction hs) auto

subsection \<open>Detaching\<close>

lemma detach_traverse_absent:
  "x \<notin> id_fh ` set hs \<Longrightarrow> detach_traverse x hs = (hs, -1)"
  by (induction hs) auto

lemma detach_traverse_first:
  "x \<notin> id_fh ` set pre \<Longrightarrow> id_fh fh = x \<Longrightarrow>
   detach_traverse x (pre @ fh # post) = (pre @ fh\<lparr>detach_and_destroy_me := True\<rparr> # post, 0)"
  by (induction pre) auto

text \<open>
  Claim C10. Without a framehook list, or without an entry carrying the id,
  \<open>ast_framehook_detach\<close> returns -1, calls nothing and leaves the channel as it is.
  Otherwise it returns 0, calls nothing, and the list afterwards differs from the list
  before only in the flag of the first entry with that id: the entries, their order and
  both counters are the same. Detaching the same id once more returns 0 again and
  changes nothing further.
\<close>

theorem ast_framehook_detach_only_flags:
  "ast_framehook_detach None x = (-1, None, []) \<and>
   (word_of_int x \<notin> id_fh ` set (list_fh l) \<longrightarrow>
      ast_framehook_detach (Some l) x = (-1, Some l, [])) \<and>
   (\<forall>pre fh post.
      list_fh l = pre @ fh # post \<and> id_fh fh = word_of_int x \<and>
      word_of_int x \<notin> id_fh ` set pre \<longrightarrow>
      ast_framehook_detach (Some l) x =
        (0, Some (l\<lparr>list_fh := pre @ fh\<lparr>detach_and_destroy_me := True\<rparr> # post\<rparr>), []) \<and>
      ast_framehook_detach
        (Some (l\<lparr>list_fh := pre @ fh\<lparr>detach_and_destroy_me := True\<rparr> # post\<rparr>)) x =
        (0, Some (l\<lparr>list_fh := pre @ fh\<lparr>detach_and_destroy_me := True\<rparr> # post\<rparr>), []))"
proof (intro conjI allI impI)
  show "ast_framehook_detach None x = (-1, None, [])"
    by (simp add: ast_framehook_detach_def)
next
  assume "word_of_int x \<notin> id_fh ` set (list_fh l)"
  then show "ast_framehook_detach (Some l) x = (-1, Some l, [])"
    by (simp add: ast_framehook_detach_def detach_traverse_absent)
next
  fix pre fh post
  assume h: "list_fh l = pre @ fh # post \<and> id_fh fh = word_of_int x \<and>
    word_of_int x \<notin> id_fh ` set pre"
  then show "ast_framehook_detach (Some l) x =
      (0, Some (l\<lparr>list_fh := pre @ fh\<lparr>detach_and_destroy_me := True\<rparr> # post\<rparr>), [])"
    by (simp add: ast_framehook_detach_def detach_traverse_first)
  have "detach_traverse (word_of_int x) (pre @ fh\<lparr>detach_and_destroy_me := True\<rparr> # post) =
      (pre @ fh\<lparr>detach_and_destroy_me := True\<rparr> # post, 0)"
    using h detach_traverse_first [of "word_of_int x" pre "fh\<lparr>detach_and_destroy_me := True\<rparr>" post]
    by simp
  then show "ast_framehook_detach
        (Some (l\<lparr>list_fh := pre @ fh\<lparr>detach_and_destroy_me := True\<rparr> # post\<rparr>)) x =
        (0, Some (l\<lparr>list_fh := pre @ fh\<lparr>detach_and_destroy_me := True\<rparr> # post\<rparr>), [])"
    by (simp add: ast_framehook_detach_def)
qed

text \<open>
  The same at the list \<open>two_hooks\<close>, whose entries have ids 1 and 2: detaching 7
  returns -1 and changes nothing, detaching 2 flags the second entry.
\<close>

theorem ast_framehook_detach_only_flags_witness:
  "ast_framehook_detach (Some two_hooks) 7 = (-1, Some two_hooks, []) \<and>
   ast_framehook_detach (Some two_hooks) 2 =
     (0, Some (two_hooks\<lparr>list_fh :=
        [hd (list_fh two_hooks), (last (list_fh two_hooks))\<lparr>detach_and_destroy_me := True\<rparr>]\<rparr>), [])"
proof -
  have a: "(word_of_int 7 :: 32 word) \<notin> id_fh ` set (list_fh two_hooks)"
    by (simp add: two_hooks_def entry_def)
  have b: "list_fh two_hooks = [hd (list_fh two_hooks)] @ last (list_fh two_hooks) # [] \<and>
      id_fh (last (list_fh two_hooks)) = word_of_int 2 \<and>
      (word_of_int 2 :: 32 word) \<notin> id_fh ` set [hd (list_fh two_hooks)]"
    by (simp add: two_hooks_def entry_def)
  from a b show ?thesis
    using ast_framehook_detach_only_flags [of 7 two_hooks]
      ast_framehook_detach_only_flags [of 2 two_hooks]
    by (metis append_Cons append_Nil)
qed

subsection \<open>The count field\<close>

lemma two_attached_eq:
  "two_attached =
     Some \<lparr>count = 2, id_count = 2,
           list_fh = [entry pass_through 1, entry pass_through 2]\<rparr>"
  by (simp add: two_attached_def ast_framehook_attach_def hook_of_def entry_def
      pass_through_def detach_calls_def)

text \<open>
  Claim C9, evaluated on its own scenario: two hooks are attached to an empty channel,
  hook 1 is detached, and frame 100 is dispatched as a read event. Only hook 2 sees the
  frame and hook 1 is reaped, so one entry is left in the list; but \<open>count\<close> is still
  2, because nothing in the file ever decrements it.
\<close>

theorem count_after_reaping_is_stale:
  "ast_framehook_list_read_event (fst (snd (ast_framehook_detach two_attached 1))) 100 =
     Inr (100,
          Some \<lparr>count = 2, id_count = 2, list_fh = [entry pass_through 2]\<rparr>,
          [Event_cb 1 AST_FRAMEHOOK_EVENT_DETACHED 0, Free_hook 1,
           Event_cb 2 AST_FRAMEHOOK_EVENT_READ 100],
          1)"
  by (simp add: two_attached_eq ast_framehook_detach_def ast_framehook_list_read_event_def
      framehook_list_push_event_def framehook_list_loop.simps framehook_list_traverse.simps
      framehook_detach_and_destroy_def hook_of_def entry_def pass_through_def detach_calls_def)

subsection \<open>Dispatch order when a hook leaves during the dispatch\<close>

lemma abc_attached_eq:
  "abc_attached =
     Some \<lparr>count = 3, id_count = 3,
           list_fh = [entry leaving 1, entry substituting 2, entry pass_through 3]\<rparr>"
  by (simp add: abc_attached_def ast_framehook_attach_def hook_of_def entry_def pass_through_def
      leaving_def substituting_def detach_calls_def)

text \<open>
  Claim C1, evaluated where it fails: hooks A, B, C with ids 1, 2, 3, where A detaches
  itself from inside its callback and B substitutes. In the first pass A sees frame 100
  and flags itself, B returns frame 200 and slot 1 of \<open>skip\<close> is set. In the second
  pass A is unlinked and destroyed, which moves B to position 0 and C to position 1: B,
  whose slot was meant to be skipped, is called again with frame 200, and C, which never
  saw any frame, is skipped in its place. The dispatch returns frame 200 after two
  passes.
\<close>

theorem skip_slot_follows_position_not_hook:
  "ast_framehook_list_read_event abc_attached 100 =
     Inr (200,
          Some \<lparr>count = 3, id_count = 3,
                list_fh = [entry substituting 2, entry pass_through 3]\<rparr>,
          [Event_cb 1 AST_FRAMEHOOK_EVENT_READ 100,
           Event_cb 2 AST_FRAMEHOOK_EVENT_READ 100,
           Event_cb 1 AST_FRAMEHOOK_EVENT_DETACHED 0, Free_hook 1,
           Event_cb 2 AST_FRAMEHOOK_EVENT_READ 200],
          2)"
  by (simp add: abc_attached_eq ast_framehook_list_read_event_def
      framehook_list_push_event_def framehook_list_loop.simps framehook_list_traverse.simps
      framehook_detach_and_destroy_def hook_of_def entry_def pass_through_def leaving_def
      substituting_def detach_calls_def)

text \<open>
  With hooks that stay attached the order is the one the claim describes: A, then B,
  then A again and C with the new frame.
\<close>

lemma abc_order_without_detach:
  "ast_framehook_list_read_event
     (Some \<lparr>count = 3, id_count = 3,
            list_fh = [entry pass_through 1, entry substituting 2, entry pass_through 3]\<rparr>)
     100 =
     Inr (200,
          Some \<lparr>count = 3, id_count = 3,
                list_fh = [entry pass_through 1, entry substituting 2, entry pass_through 3]\<rparr>,
          [Event_cb 1 AST_FRAMEHOOK_EVENT_READ 100,
           Event_cb 2 AST_FRAMEHOOK_EVENT_READ 100,
           Event_cb 1 AST_FRAMEHOOK_EVENT_READ 200,
           Event_cb 3 AST_FRAMEHOOK_EVENT_READ 200],
          2)"
  by (simp add: ast_framehook_list_read_event_def
      framehook_list_push_event_def framehook_list_loop.simps framehook_list_traverse.simps
      framehook_detach_and_destroy_def hook_of_def entry_def pass_through_def
      substituting_def detach_calls_def)

subsection \<open>The ids that attach returns\<close>

text \<open>The id counter of a channel; a channel without a list starts from 0.\<close>

definition idc :: "'d ast_framehook_list option \<Rightarrow> 32 word" where
  "idc chan = (case chan of None \<Rightarrow> 0 | Some l \<Rightarrow> id_count l)"

lemma attach_failure_keeps:
  "\<not> attach_succeeds v ch cl chan ifc \<Longrightarrow>
   ast_framehook_attach v ch cl chan ifc = (-1, chan, [])"
  by (auto simp: attach_succeeds_def ast_framehook_attach_def split: option.splits)

lemma attach_success_id:
  "attach_succeeds v ch cl chan ifc \<Longrightarrow>
   fst (ast_framehook_attach v ch cl chan ifc) = sint (idc chan + 1) \<and>
   idc (fst (snd (ast_framehook_attach v ch cl chan ifc))) = idc chan + 1"
  by (cases chan)
    (auto simp: attach_succeeds_def ast_framehook_attach_def idc_def Let_def split: option.splits)

lemma detach_keeps_idc: "idc (fst (snd (ast_framehook_detach chan x))) = idc chan"
  by (simp add: ast_framehook_detach_def idc_def split: option.splits)

lemma push_event_keeps_idc:
  "framehook_list_push_event chan f ev = Inr r \<Longrightarrow> idc (fst (snd r)) = idc chan"
  by (auto simp: framehook_list_push_event_def idc_def split: option.splits sum.splits)

lemma returned_ids_nth:
  "j < length (returned_ids v calls chan) \<Longrightarrow>
   returned_ids v calls chan ! j = sint (idc chan + of_nat j + 1)"
proof (induction calls arbitrary: chan j)
  case Nil
  then show ?case by simp
next
  case (Cons c calls)
  show ?case
  proof (cases c)
    case (Attach ifc ch cl)
    show ?thesis
    proof (cases "attach_succeeds v ch cl chan ifc")
      case True
      note ok = attach_success_id [OF True]
      show ?thesis
      proof (cases j)
        case 0
        with Attach True ok show ?thesis by simp
      next
        case (Suc j')
        with Cons.prems Attach True
        have "j' < length (returned_ids v calls (fst (snd (ast_framehook_attach v ch cl chan ifc))))"
          by simp
        from Cons.IH [OF this] Attach True Suc ok show ?thesis
          by (simp add: add.commute add.left_commute)
      qed
    next
      case False
      with Cons Attach show ?thesis
        by (simp add: attach_failure_keeps)
    qed
  next
    case (Detach x)
    with Cons show ?thesis
      by (simp add: detach_keeps_idc)
  next
    case (Read_event f)
    with Cons show ?thesis
      by (auto simp: ast_framehook_list_read_event_def split: sum.splits
          dest!: push_event_keeps_idc)
  next
    case (Write_event f)
    with Cons show ?thesis
      by (auto simp: ast_framehook_list_write_event_def split: sum.splits
          dest!: push_event_keeps_idc)
  qed
qed

lemma sint_of_nat_32: "n < 2 ^ 31 \<Longrightarrow> sint (of_nat n :: 32 word) = int n"
proof -
  assume n: "n < 2 ^ 31"
  have "(of_nat n :: 32 word) = word_of_int (int n)"
    by simp
  then have "sint (of_nat n :: 32 word) = signed_take_bit 31 (int n)"
    by (simp only: sint_sbintrunc') simp
  also have "\<dots> = int n"
    using n by (simp add: signed_take_bit_int_eq_self)
  finally show ?thesis .
qed

subsection \<open>Runs of calls\<close>

text \<open>
  What the calls keep of a list: every entry has an event callback, the ids are
  distinct and none exceeds \<open>id_count\<close>, \<open>count\<close> equals \<open>id_count\<close>, and the list is
  no longer than that. A channel is sound if it has no list or a list of this kind.
\<close>

definition run_ok :: "'d ast_framehook_list \<Rightarrow> bool" where
  "run_ok l \<longleftrightarrow>
     hooks_ok (list_fh l) \<and> distinct (map id_fh (list_fh l)) \<and> count l = id_count l \<and>
     length (list_fh l) \<le> unat (id_count l) \<and>
     (\<forall>x \<in> set (map id_fh (list_fh l)). unat x \<le> unat (id_count l))"

definition chan_ok :: "'d ast_framehook_list option \<Rightarrow> bool" where
  "chan_ok chan = (case chan of None \<Rightarrow> True | Some l \<Rightarrow> run_ok l)"

lemma run_ok_list_ok: "run_ok l \<Longrightarrow> list_ok l"
  by (auto simp: run_ok_def list_ok_def)

lemma unat_Suc_32:
  fixes c :: "32 word"
  assumes "unat c < 2 ^ 32 - 1"
  shows "unat (c + 1) = unat c + 1"
  using assms by (simp add: unat_word_ariths take_bit_nat_eq_self)

lemma same_hooks_run_ok:
  assumes "run_ok l" and "list_all2 same_hook (list_fh l) hs"
  shows "run_ok (l\<lparr>list_fh := hs\<rparr>)"
proof -
  have ids: "map id_fh hs = map id_fh (list_fh l)"
    using same_hooks_ids [OF assms(2)] .
  have "length hs = length (list_fh l)"
    using assms(2) by (auto dest: list_all2_lengthD)
  then show ?thesis
    using assms(1) same_hooks_ok [OF assms(2)] by (auto simp: run_ok_def ids)
qed

lemma detach_step:
  assumes "chan_ok chan"
  shows "chan_ok (fst (snd (ast_framehook_detach chan y))) \<and>
         idc (fst (snd (ast_framehook_detach chan y))) = idc chan \<and>
         snd (snd (ast_framehook_detach chan y)) = []"
proof (cases chan)
  case None
  then show ?thesis
    by (simp add: ast_framehook_detach_def chan_ok_def idc_def)
next
  case (Some l)
  with assms have "run_ok l"
    by (simp add: chan_ok_def)
  then have "run_ok (l\<lparr>list_fh := fst (detach_traverse (word_of_int y) (list_fh l))\<rparr>)"
    using same_hooks_detach_traverse by (rule same_hooks_run_ok)
  with Some show ?thesis
    by (simp add: ast_framehook_detach_def chan_ok_def idc_def)
qed

lemma loop_distinct:
  "distinct (map id_fh hs) \<Longrightarrow>
   framehook_list_loop hs skip frame event tr p = Inr (fr, hs', tr', p') \<Longrightarrow>
   distinct (map id_fh hs')"
proof (induction hs skip frame event tr p rule: framehook_list_loop.induct)
  case (1 hs skip frame event tr passes)
  show ?case
  proof (cases "framehook_list_traverse hs 0 0 skip frame event tr")
    case (Pass_done hs1 tr1)
    then have "hs' = hs1"
      using "1.prems"(2) by (simp add: framehook_list_loop.simps [of hs])
    then show ?thesis
      using traverse_distinct [of hs 0 0 skip frame event tr hs1 tr1] "1.prems"(1) Pass_done
      by simp
  next
    case (Pass_break hs1 skip1 fr1 tr1)
    have rest: "framehook_list_loop hs1 skip1 fr1 event tr1 (Suc passes) = Inr (fr, hs', tr', p')"
      using "1.prems"(2) Pass_break by (simp add: framehook_list_loop.simps [of hs])
    have dist: "distinct (map id_fh hs1)"
      using traverse_distinct [of hs 0 0 skip frame event tr hs1 tr1] "1.prems"(1) Pass_break
      by simp
    from "1.IH" [OF Pass_break dist rest] show ?thesis .
  next
    case (Pass_fault e)
    with "1.prems"(2) show ?thesis
      by (simp add: framehook_list_loop.simps [of hs])
  qed
qed

lemma loop_ids:
  assumes "framehook_list_loop hs skip frame event tr p = Inr (fr, hs', tr', p')"
  shows "id_fh ` set hs' \<subseteq> id_fh ` set hs"
proof
  fix x
  assume "x \<in> id_fh ` set hs'"
  then show "x \<in> id_fh ` set hs"
    using loop_absent [OF _ assms, of x] by blast
qed

lemma dispatch_step:
  assumes "chan_ok chan"
  shows "\<exists>fr chan' tr p. framehook_list_push_event chan frame event = Inr (fr, chan', tr, p) \<and>
           chan_ok chan' \<and> idc chan' = idc chan \<and> (chan = None \<longleftrightarrow> chan' = None)"
proof (cases chan)
  case None
  then show ?thesis
    by (simp add: framehook_list_push_event_def chan_ok_def)
next
  case (Some l)
  with assms have ok: "run_ok l"
    by (simp add: chan_ok_def)
  from push_event_passes [OF run_ok_list_ok [OF ok], of frame event] obtain fr l' tr p where
    r: "framehook_list_push_event (Some l) frame event = Inr (fr, Some l', tr, p)"
      "list_ok l'" "count l' = count l" "id_count l' = id_count l"
    by blast
  then have loop: "framehook_list_loop (list_fh l) (replicate (unat (count l)) False) frame event [] 0 =
      Inr (fr, list_fh l', tr, p)"
    by (auto simp: framehook_list_push_event_def split: sum.splits)
  have "distinct (map id_fh (list_fh l'))"
    using loop_distinct [OF _ loop] ok by (simp add: run_ok_def)
  moreover have "\<forall>x \<in> set (map id_fh (list_fh l')). unat x \<le> unat (id_count l')"
    using loop_ids [OF loop] ok r(4) by (auto simp: run_ok_def)
  ultimately have "run_ok l'"
    using r(2,3,4) ok by (auto simp: run_ok_def list_ok_def)
  with r(1,4) Some show ?thesis
    by (simp add: chan_ok_def idc_def)
qed

text \<open>The list that an attach works on: the list of the channel, or a new one.\<close>

definition list_of :: "'d ast_framehook_list option \<Rightarrow> 'd ast_framehook_list" where
  "list_of chan = (case chan of None \<Rightarrow> \<lparr>count = 0, id_count = 0, list_fh = []\<rparr> | Some l \<Rightarrow> l)"

lemma attach_success_form:
  assumes "attach_succeeds v ch cl chan ifc"
  shows "\<exists>cb fr dat dets.
    event_cb ifc = Some cb \<and> cb 0 AST_FRAMEHOOK_EVENT_ATTACHED (data ifc) = (fr, dat, dets) \<and>
    ast_framehook_attach v ch cl chan ifc =
      (sint (id_count (list_of chan) + 1),
       Some ((list_of chan)\<lparr>count := count (list_of chan) + 1,
               id_count := id_count (list_of chan) + 1,
               list_fh := detach_calls dets
                 (list_fh (list_of chan) @
                  [\<lparr>i_fh = ifc\<lparr>data := dat\<rparr>, id_fh = id_count (list_of chan) + 1,
                    detach_and_destroy_me = False\<rparr>])\<rparr>),
       [Event_cb (id_count (list_of chan) + 1) AST_FRAMEHOOK_EVENT_ATTACHED 0]
       @ (if fr \<noteq> 0 then [Frfree fr] else []))"
proof -
  from assms obtain cb where cb: "event_cb ifc = Some cb"
    by (auto simp: attach_succeeds_def)
  obtain fr dat dets where out: "cb 0 AST_FRAMEHOOK_EVENT_ATTACHED (data ifc) = (fr, dat, dets)"
    by (cases "cb 0 AST_FRAMEHOOK_EVENT_ATTACHED (data ifc)") auto
  have "ast_framehook_attach v ch cl chan ifc =
      (sint (id_count (list_of chan) + 1),
       Some ((list_of chan)\<lparr>count := count (list_of chan) + 1,
               id_count := id_count (list_of chan) + 1,
               list_fh := detach_calls dets
                 (list_fh (list_of chan) @
                  [\<lparr>i_fh = ifc\<lparr>data := dat\<rparr>, id_fh = id_count (list_of chan) + 1,
                    detach_and_destroy_me = False\<rparr>])\<rparr>),
       [Event_cb (id_count (list_of chan) + 1) AST_FRAMEHOOK_EVENT_ATTACHED 0]
       @ (if fr \<noteq> 0 then [Frfree fr] else []))"
    using assms cb out
    by (cases chan) (simp_all add: attach_succeeds_def ast_framehook_attach_def list_of_def Let_def)
  with cb out show ?thesis
    by blast
qed

lemma list_of_Some [simp]: "list_of (Some l) = l"
  by (simp add: list_of_def)

lemma list_of_ok: "chan_ok chan \<Longrightarrow> run_ok (list_of chan)"
  by (cases chan) (simp_all add: chan_ok_def list_of_def run_ok_def hooks_ok_def)

lemma idc_list_of: "idc chan = id_count (list_of chan)"
  by (cases chan) (simp_all add: idc_def list_of_def)

lemma append_run_ok:
  assumes "run_ok l" and "unat (id_count l) < 2 ^ 32 - 1" and "event_cb (i_fh fh) \<noteq> None"
    and "id_fh fh = id_count l + 1"
  shows "run_ok (l\<lparr>count := count l + 1, id_count := id_count l + 1, list_fh := list_fh l @ [fh]\<rparr>)"
proof -
  have new: "unat (id_count l + 1) = unat (id_count l) + 1"
    using assms(2) by (rule unat_Suc_32)
  have bound: "\<forall>x \<in> set (map id_fh (list_fh l)). unat x \<le> unat (id_count l)"
    using assms(1) by (simp add: run_ok_def)
  then have "id_count l + 1 \<notin> set (map id_fh (list_fh l))"
    using new by fastforce
  moreover have "\<forall>x \<in> set (map id_fh (list_fh l)). unat x \<le> unat (id_count l + 1)"
    using bound new by fastforce
  ultimately show ?thesis
    using assms new by (auto simp: run_ok_def hooks_ok_def)
qed

lemma attach_step:
  assumes "chan_ok chan" and "unat (idc chan) < 2 ^ 32 - 1"
  shows "chan_ok (fst (snd (ast_framehook_attach v ch cl chan ifc))) \<and>
         unat (idc (fst (snd (ast_framehook_attach v ch cl chan ifc)))) =
           unat (idc chan) + (if attach_succeeds v ch cl chan ifc then 1 else 0)"
proof (cases "attach_succeeds v ch cl chan ifc")
  case False
  then show ?thesis
    using assms(1) by (simp add: attach_failure_keeps)
next
  case True
  let ?l = "list_of chan"
  from attach_success_form [OF True] obtain cb fr dat dets where
    cb: "event_cb ifc = Some cb"
    and r: "fst (snd (ast_framehook_attach v ch cl chan ifc)) =
       Some (?l\<lparr>count := count ?l + 1, id_count := id_count ?l + 1,
               list_fh := detach_calls dets
                 (list_fh ?l @
                  [\<lparr>i_fh = ifc\<lparr>data := dat\<rparr>, id_fh = id_count ?l + 1,
                    detach_and_destroy_me = False\<rparr>])\<rparr>)"
    by auto
  let ?fh = "\<lparr>i_fh = ifc\<lparr>data := dat\<rparr>, id_fh = id_count ?l + 1, detach_and_destroy_me = False\<rparr>"
  let ?l1 = "?l\<lparr>count := count ?l + 1, id_count := id_count ?l + 1, list_fh := list_fh ?l @ [?fh]\<rparr>"
  have small: "unat (id_count ?l) < 2 ^ 32 - 1"
    using assms(2) by (simp add: idc_list_of)
  have "run_ok ?l1"
    using list_of_ok [OF assms(1)] small by (rule append_run_ok) (simp_all add: cb)
  moreover have "list_all2 same_hook (list_fh ?l1) (detach_calls dets (list_fh ?l1))"
    by (rule same_hooks_detach_calls)
  ultimately have "run_ok (?l1\<lparr>list_fh := detach_calls dets (list_fh ?l1)\<rparr>)"
    by (rule same_hooks_run_ok)
  then have "chan_ok (fst (snd (ast_framehook_attach v ch cl chan ifc)))"
    unfolding r by (simp add: chan_ok_def)
  moreover have "idc (fst (snd (ast_framehook_attach v ch cl chan ifc))) = idc chan + 1"
    unfolding r by (simp add: idc_list_of)
  ultimately show ?thesis
    using unat_Suc_32 [OF assms(2)] True by simp
qed

text \<open>
  A run on a channel without a list, or with a list that a run has built, never faults
  as long as the counters do not wrap, and the id counter ends at the number of ids
  that were returned: \<open>returned_ids\<close> lists every successful attach of the run.
\<close>

lemma run_returns:
  assumes "chan_ok chan" and "unat (idc chan) + length calls < 2 ^ 32"
  shows "\<exists>chan' tr'. run v calls chan tr = Inr (chan', tr') \<and> chan_ok chan' \<and>
           unat (idc chan') = unat (idc chan) + length (returned_ids v calls chan)"
  using assms
proof (induction calls arbitrary: chan tr)
  case Nil
  then show ?case by simp
next
  case (Cons c calls)
  show ?case
  proof (cases c)
    case (Attach ifc ch cl)
    let ?chan1 = "fst (snd (ast_framehook_attach v ch cl chan ifc))"
    have small: "unat (idc chan) < 2 ^ 32 - 1"
      using Cons.prems(2) by simp
    note step = attach_step [OF Cons.prems(1) small, of v ch cl ifc]
    then have "unat (idc ?chan1) + length calls < 2 ^ 32"
      using Cons.prems(2) by (simp split: if_splits)
    from Cons.IH [OF _ this] step obtain chan' tr' where
      "run v calls ?chan1 (tr @ snd (snd (ast_framehook_attach v ch cl chan ifc))) = Inr (chan', tr')"
      "chan_ok chan'"
      "unat (idc chan') = unat (idc ?chan1) + length (returned_ids v calls ?chan1)"
      by blast
    with step Attach show ?thesis
      by simp
  next
    case (Detach y)
    let ?chan1 = "fst (snd (ast_framehook_detach chan y))"
    note step = detach_step [OF Cons.prems(1), of y]
    then have "unat (idc ?chan1) + length calls < 2 ^ 32"
      using Cons.prems(2) by simp
    from Cons.IH [OF _ this] step obtain chan' tr' where
      "run v calls ?chan1 (tr @ snd (snd (ast_framehook_detach chan y))) = Inr (chan', tr')"
      "chan_ok chan'"
      "unat (idc chan') = unat (idc ?chan1) + length (returned_ids v calls ?chan1)"
      by blast
    with step Detach show ?thesis
      by simp
  next
    case (Read_event f)
    from dispatch_step [OF Cons.prems(1), of f AST_FRAMEHOOK_EVENT_READ] obtain fr chan1 tr1 p where
      r: "framehook_list_push_event chan f AST_FRAMEHOOK_EVENT_READ = Inr (fr, chan1, tr1, p)"
        "chan_ok chan1" "idc chan1 = idc chan"
      by blast
    then have "unat (idc chan1) + length calls < 2 ^ 32"
      using Cons.prems(2) by simp
    from Cons.IH [OF r(2) this, of "tr @ tr1"] r Read_event show ?thesis
      by (simp add: ast_framehook_list_read_event_def)
  next
    case (Write_event f)
    from dispatch_step [OF Cons.prems(1), of f AST_FRAMEHOOK_EVENT_WRITE] obtain fr chan1 tr1 p where
      r: "framehook_list_push_event chan f AST_FRAMEHOOK_EVENT_WRITE = Inr (fr, chan1, tr1, p)"
        "chan_ok chan1" "idc chan1 = idc chan"
      by blast
    then have "unat (idc chan1) + length calls < 2 ^ 32"
      using Cons.prems(2) by simp
    from Cons.IH [OF r(2) this, of "tr @ tr1"] r Write_event show ?thesis
      by (simp add: ast_framehook_list_write_event_def)
  qed
qed

text \<open>A run of \<open>n\<close> attaches that all succeed returns \<open>n\<close> ids.\<close>

lemma attach_run_length:
  assumes "version ifc = v" and "event_cb ifc \<noteq> None"
  shows "length (returned_ids v (replicate n (Attach ifc True True)) chan) = n"
proof (induction n arbitrary: chan)
  case 0
  then show ?case by simp
next
  case (Suc n)
  have "attach_succeeds v True True chan ifc"
    using assms by (simp add: attach_succeeds_def)
  with Suc show ?case
    by simp
qed

text \<open>
  Claim C8, amended. Take any sequence of attach, detach, read and write calls on a
  channel that starts without a framehook list. If it has fewer than \<open>2^32\<close> calls, no
  dispatch in it faults, the list it leaves is sound with \<open>count\<close> equal to
  \<open>id_count\<close>, and \<open>id_count\<close> is the number of ids returned. The successful attach
  number \<open>j + 1\<close> returns the id \<open>j + 1\<close>, as long as \<open>j + 1 < 2^31\<close>: whatever was
  detached and reaped in between, such an id is positive and greater than every id
  returned before.
\<close>

theorem attach_ids_count_up:
  "(length calls < 2 ^ 32 \<longrightarrow>
      (\<exists>chan' tr'. run v calls None [] = Inr (chan', tr') \<and> chan_ok chan' \<and>
         unat (idc chan') = length (returned_ids v calls None))) \<and>
   (j < length (returned_ids v calls None) \<and> j < 2 ^ 31 - 1 \<longrightarrow>
      returned_ids v calls None ! j = int j + 1 \<and>
      0 < returned_ids v calls None ! j \<and>
      (\<forall>i < j. returned_ids v calls None ! i < returned_ids v calls None ! j))"
proof (intro conjI impI)
  assume "length calls < 2 ^ 32"
  then show "\<exists>chan' tr'. run v calls None [] = Inr (chan', tr') \<and> chan_ok chan' \<and>
         unat (idc chan') = length (returned_ids v calls None)"
    using run_returns [of None calls v "[]"] by (simp add: chan_ok_def idc_def)
next
  assume a: "j < length (returned_ids v calls None) \<and> j < 2 ^ 31 - 1"
  then have len: "j < length (returned_ids v calls None)" and small: "j < 2 ^ 31 - 1"
    by simp_all
  have nth: "returned_ids v calls None ! i = int i + 1" if "i \<le> j" for i
  proof -
    from that len have "i < length (returned_ids v calls None)"
      by simp
    then have "returned_ids v calls None ! i = sint (0 + of_nat i + 1 :: 32 word)"
      using returned_ids_nth [of i v calls None] by (simp only: idc_def option.case)
    also have "(0 + of_nat i + 1 :: 32 word) = of_nat (Suc i)"
      by simp
    finally have "returned_ids v calls None ! i = sint (of_nat (Suc i) :: 32 word)" .
    also have "\<dots> = int (Suc i)"
      using that small by (intro sint_of_nat_32) simp
    finally show ?thesis by simp
  qed
  show "returned_ids v calls None ! j = int j + 1"
    using nth [of j] by simp
  show "0 < returned_ids v calls None ! j"
    using nth [of j] by simp
  show "\<forall>i < j. returned_ids v calls None ! i < returned_ids v calls None ! j"
    using nth [of j] nth by simp
qed

text \<open>
  Two hooks are attached, the first is detached and reaped by a read event, and a third
  attach follows: the run does not fault, and the ids are 1, 2 and 3.
\<close>

theorem attach_ids_count_up_witness:
  "length [Attach (hook_of pass_through) True True, Attach (hook_of pass_through) True True,
      Detach 1, Read_event 100, Attach (hook_of pass_through) True True] < (2 :: nat) ^ 32 \<and>
   (2 :: nat) < length (returned_ids 1
     [Attach (hook_of pass_through) True True, Attach (hook_of pass_through) True True,
      Detach 1, Read_event 100, Attach (hook_of pass_through) True True]
     (None :: unit ast_framehook_list option)) \<and>
   (2 :: nat) < 2 ^ 31 - 1 \<and>
   (\<exists>chan' tr'. run 1
     [Attach (hook_of pass_through) True True, Attach (hook_of pass_through) True True,
      Detach 1, Read_event 100, Attach (hook_of pass_through) True True]
     (None :: unit ast_framehook_list option) [] = Inr (chan', tr') \<and> unat (idc chan') = 3) \<and>
   returned_ids 1
     [Attach (hook_of pass_through) True True, Attach (hook_of pass_through) True True,
      Detach 1, Read_event 100, Attach (hook_of pass_through) True True]
     (None :: unit ast_framehook_list option) ! 2 = 3"
proof -
  define calls :: "unit api_call list" where
    "calls = [Attach (hook_of pass_through) True True, Attach (hook_of pass_through) True True,
      Detach 1, Read_event 100, Attach (hook_of pass_through) True True]"
  have short: "length calls < 2 ^ 32"
    by (simp add: calls_def)
  have len: "length (returned_ids 1 calls None) = 3"
    by (simp add: calls_def attach_succeeds_def hook_of_def ast_framehook_attach_def
        ast_framehook_detach_def ast_framehook_list_read_event_def
        framehook_list_push_event_def framehook_list_loop.simps framehook_list_traverse.simps
        framehook_detach_and_destroy_def pass_through_def detach_calls_def)
  have "length calls < 2 ^ 32 \<and> 2 < length (returned_ids 1 calls None) \<and>
      (2 :: nat) < 2 ^ 31 - 1 \<and>
      (\<exists>chan' tr'. run 1 calls None [] = Inr (chan', tr') \<and> unat (idc chan') = 3) \<and>
      returned_ids 1 calls None ! 2 = 3"
    using attach_ids_count_up [of calls 1 2] short len by auto
  then show ?thesis
    unfolding calls_def .
qed

text \<open>
  The claim as it stands holds for every attach. In a run of \<open>2^31\<close> attaches on a
  channel without a list every attach succeeds, and the last one returns the id
  \<open>2^31\<close> as an \<open>int\<close>, which is negative. The step by itself: on a list whose
  counters have both reached \<open>2^31 - 1\<close>, all hooks being detached and reaped, the
  attach succeeds and returns \<open>-2^31\<close>.
\<close>

theorem attach_id_negative_after_wrap:
  "length (returned_ids 1 (replicate 2147483648 (Attach (hook_of pass_through) True True))
     (None :: unit ast_framehook_list option)) = 2147483648 \<and>
   returned_ids 1 (replicate 2147483648 (Attach (hook_of pass_through) True True))
     (None :: unit ast_framehook_list option) ! 2147483647 = - 2147483648 \<and>
   run_ok (\<lparr>count = 2147483647, id_count = 2147483647, list_fh = []\<rparr> :: unit ast_framehook_list) \<and>
   attach_succeeds 1 True True
     (Some \<lparr>count = 2147483647, id_count = 2147483647, list_fh = []\<rparr>) (hook_of pass_through) \<and>
   fst (ast_framehook_attach 1 True True
     (Some \<lparr>count = 2147483647, id_count = 2147483647, list_fh = []\<rparr>) (hook_of pass_through)) =
   - 2147483648"
proof -
  let ?calls = "replicate 2147483648 (Attach (hook_of pass_through) True True) :: unit api_call list"
  have len: "length (returned_ids 1 ?calls None) = 2147483648"
    by (rule attach_run_length) (simp_all add: hook_of_def)
  have "returned_ids 1 ?calls None ! 2147483647 =
      sint (idc (None :: unit ast_framehook_list option) + of_nat 2147483647 + 1)"
    by (rule returned_ids_nth) (simp add: len)
  also have "\<dots> = - 2147483648"
    by (simp add: idc_def)
  finally have nth: "returned_ids 1 ?calls None ! 2147483647 = - 2147483648" .
  have ok: "run_ok (\<lparr>count = 2147483647, id_count = 2147483647, list_fh = []\<rparr> :: unit ast_framehook_list)"
    by (simp add: run_ok_def hooks_ok_def)
  have step: "attach_succeeds 1 True True
       (Some \<lparr>count = 2147483647, id_count = 2147483647, list_fh = []\<rparr>) (hook_of pass_through) \<and>
     fst (ast_framehook_attach 1 True True
       (Some \<lparr>count = 2147483647, id_count = 2147483647, list_fh = []\<rparr>) (hook_of pass_through)) =
     - 2147483648"
    by (simp add: attach_succeeds_def ast_framehook_attach_def hook_of_def pass_through_def)
  from len nth ok step show ?thesis
    by (simp only: simp_thms)
qed

subsection \<open>Detaching defers the destruction\<close>

lemma detach_flags_hook:
  assumes "fst (ast_framehook_detach (Some l0) y) = 0"
  shows "\<exists>l1 d. fst (snd (ast_framehook_detach (Some l0) y)) = Some l1 \<and>
           count l1 = count l0 \<and> id_count l1 = id_count l0 \<and>
           map id_fh (list_fh l1) = map id_fh (list_fh l0) \<and>
           flagged_in (word_of_int y) d (list_fh l1)"
proof -
  let ?hs = "fst (detach_traverse (word_of_int y) (list_fh l0))"
  from assms have "snd (detach_traverse (word_of_int y) (list_fh l0)) = 0"
    by (simp add: ast_framehook_detach_def)
  then obtain h where h: "h \<in> set ?hs" "id_fh h = word_of_int y" "detach_and_destroy_me h"
    using detach_traverse_flags by blast
  then have "flagged_in (word_of_int y) (destroy_cb (i_fh h)) ?hs"
    by (auto simp: flagged_in_def)
  moreover have "map id_fh ?hs = map id_fh (list_fh l0)"
    using same_hooks_ids [OF same_hooks_detach_traverse] .
  ultimately show ?thesis
    by (auto simp: ast_framehook_detach_def)
qed

lemma push_event_flagged:
  assumes "distinct (map id_fh (list_fh l))" and "flagged_in x d (list_fh l)"
    and "framehook_list_push_event (Some l) frame event = Inr (fr, chan', tr, p)"
  shows "calls_on x tr = destroy_calls x d \<and>
         (\<exists>l'. chan' = Some l' \<and> x \<notin> id_fh ` set (list_fh l'))"
proof -
  from assms(3) obtain hs' where
    loop: "framehook_list_loop (list_fh l) (replicate (unat (count l)) False) frame event [] 0 =
             Inr (fr, hs', tr, p)"
    and chan': "chan' = Some (l\<lparr>list_fh := hs'\<rparr>)"
    by (auto simp: framehook_list_push_event_def split: sum.splits)
  have "x \<notin> id_fh ` set hs' \<and> calls_on x tr = calls_on x [] @ destroy_calls x d"
    using loop_flagged [OF assms(1,2) loop] .
  with chan' show ?thesis by simp
qed

text \<open>Teardown returns, and so does a dispatch on a sound list.\<close>

lemma list_destroy_returns:
  "hooks_ok hs \<Longrightarrow> \<exists>tr'. list_destroy_traverse hs tr = Inr tr'"
proof (induction hs tr rule: list_destroy_traverse.induct)
  case (1 tr)
  then show ?case by simp
next
  case (2 fh hs tr)
  then have "event_cb (i_fh fh) \<noteq> None" and ok: "hooks_ok hs"
    by (simp_all add: hooks_ok_def)
  then obtain r where r: "framehook_detach_and_destroy fh hs = Inr r"
    using destroy_no_fault by blast
  have "hooks_ok (fst r)"
    using same_hooks_ok [OF destroy_same_hooks [OF r] ok] .
  with "2.IH" [OF r] r show ?case
    by simp
qed

lemma teardown_returns:
  assumes "hooks_ok (list_fh l)"
  shows "\<exists>tr. ast_framehook_list_destroy (Some l) = Inr (0, None, tr)"
  using list_destroy_returns [OF assms, of "[]"]
  by (auto simp: ast_framehook_list_destroy_def)

lemma detach_traverse_flags_present:
  "distinct (map id_fh hs) \<Longrightarrow> present_in x d hs \<Longrightarrow>
   flagged_in x d (fst (detach_traverse x hs))"
proof (induction hs)
  case Nil
  then show ?case by (simp add: present_in_def)
next
  case (Cons fh hs)
  show ?case
  proof (cases "id_fh fh = x")
    case True
    with Cons.prems(1) have "x \<notin> id_fh ` set hs"
      by simp
    then have "\<forall>h \<in> set hs. id_fh h \<noteq> x"
      by blast
    with Cons.prems True have "destroy_cb (i_fh fh) = d"
      by (auto simp: present_in_def)
    with True show ?thesis
      by (simp add: flagged_in_def)
  next
    case False
    with Cons.prems have "present_in x d hs" "distinct (map id_fh hs)"
      by (auto simp: present_in_def)
    with Cons.IH False show ?thesis
      by (auto simp: flagged_in_def)
  qed
qed

lemma detach_calls_flags:
  "z \<in> set dets \<Longrightarrow> distinct (map id_fh hs) \<Longrightarrow> present_in (word_of_int z) d hs \<Longrightarrow>
   flagged_in (word_of_int z) d (detach_calls dets hs)"
proof (induction dets arbitrary: hs)
  case Nil
  then show ?case by simp
next
  case (Cons a dets)
  let ?hs1 = "fst (detach_traverse (word_of_int a) hs)"
  have same: "list_all2 same_hook hs ?hs1"
    by (rule same_hooks_detach_traverse)
  have step: "detach_calls (a # dets) hs = detach_calls dets ?hs1"
    by (simp add: detach_calls_def)
  show ?case
  proof (cases "a = z")
    case True
    have "flagged_in (word_of_int z) d ?hs1"
      unfolding True using Cons.prems(2,3) by (rule detach_traverse_flags_present)
    then show ?thesis
      unfolding step using same_hooks_flagged [OF same_hooks_detach_calls] by blast
  next
    case False
    with Cons.prems(1) have "z \<in> set dets"
      by simp
    moreover have "distinct (map id_fh ?hs1)"
      using same_hooks_ids [OF same] Cons.prems(2) by simp
    moreover have "present_in (word_of_int z) d ?hs1"
      using same_hooks_present [OF same Cons.prems(3)] .
    ultimately show ?thesis
      unfolding step by (rule Cons.IH)
  qed
qed

lemma after_callback_flags:
  assumes "z \<in> set dets" and "distinct (map id_fh hs)" and "present_in (word_of_int z) d hs"
  shows "flagged_in (word_of_int z) d (after_callback hs k dat dets)"
proof -
  let ?hs1 = "hs[k := (hs ! k)\<lparr>i_fh := (i_fh (hs ! k))\<lparr>data := dat\<rparr>\<rparr>]"
  have same: "list_all2 same_hook hs ?hs1"
    by (rule same_hooks_data_update)
  have "distinct (map id_fh ?hs1)"
    using same_hooks_ids [OF same] assms(2) by simp
  moreover have "present_in (word_of_int z) d ?hs1"
    using same_hooks_present [OF same assms(3)] .
  ultimately show ?thesis
    unfolding after_callback_def using assms(1) detach_calls_flags by blast
qed

lemma in_callback_detach:
  assumes dist: "distinct (map id_fh hs)"
    and at: "k < length hs" "\<not> detach_and_destroy_me (hs ! k)" "num < length skip" "\<not> skip ! num"
    and cb: "event_cb (i_fh (hs ! k)) = Some cb"
      "cb frame event (data (i_fh (hs ! k))) = (fr0, dat, dets)"
    and z: "z \<in> set dets" "present_in (word_of_int z) d hs"
    and r: "pass_result (framehook_list_traverse hs k num skip frame event tr) = Some (hs', tr')"
  shows "(word_of_int z \<notin> id_fh ` set hs' \<and>
          calls_on (word_of_int z) tr' =
            calls_on (word_of_int z) tr @
            calls_on (word_of_int z) [Event_cb (id_fh (hs ! k)) event frame] @
            destroy_calls (word_of_int z) d) \<or>
         (flagged_in (word_of_int z) d hs' \<and>
          calls_on (word_of_int z) tr' =
            calls_on (word_of_int z) tr @
            calls_on (word_of_int z) [Event_cb (id_fh (hs ! k)) event frame])"
proof -
  let ?x = "word_of_int z :: 32 word"
  let ?hs1 = "after_callback hs k dat dets"
  let ?tr1 = "tr @ [Event_cb (id_fh (hs ! k)) event frame]"
  have fl: "flagged_in ?x d ?hs1"
    using z(1) dist z(2) by (rule after_callback_flags)
  have dist1: "distinct (map id_fh ?hs1)"
    using dist by simp
  note step = traverse_call [OF at cb, of tr, folded after_callback_def]
  show ?thesis
  proof (cases "fr0 = frame")
    case False
    with r step have "hs' = ?hs1" "tr' = ?tr1"
      by simp_all
    with fl show ?thesis
      by simp
  next
    case True
    with r step have
      "pass_result (framehook_list_traverse ?hs1 (Suc k) (Suc num) skip frame event ?tr1) =
         Some (hs', tr')"
      by simp
    from traverse_flagged [OF dist1 fl this] show ?thesis
      by simp
  qed
qed

lemma push_event_flagged_total:
  assumes "list_ok l" and "distinct (map id_fh (list_fh l))" and "flagged_in x d (list_fh l)"
  shows "\<exists>fr l' tr p. framehook_list_push_event (Some l) frame event = Inr (fr, Some l', tr, p) \<and>
           list_ok l' \<and> calls_on x tr = destroy_calls x d \<and> x \<notin> id_fh ` set (list_fh l')"
proof -
  from push_event_passes [OF assms(1), of frame event] obtain fr l' tr p where
    r: "framehook_list_push_event (Some l) frame event = Inr (fr, Some l', tr, p)" "list_ok l'"
    by blast
  from push_event_flagged [OF assms(2,3) r(1)] r show ?thesis
    by auto
qed

lemma teardown_flagged_total:
  assumes "hooks_ok (list_fh l)" and "distinct (map id_fh (list_fh l))"
    and "present_in x d (list_fh l)"
  shows "\<exists>tr. ast_framehook_list_destroy (Some l) = Inr (0, None, tr) \<and>
           calls_on x tr = destroy_calls x d"
proof -
  from list_destroy_returns [OF assms(1), of "[]"] obtain tr where
    tr: "list_destroy_traverse (list_fh l) [] = Inr tr"
    by blast
  from list_destroy_present [OF assms(2,3) tr] tr show ?thesis
    by (simp add: ast_framehook_list_destroy_def)
qed

subsection \<open>What a dispatch delivers to a hook\<close>

text \<open>
  \<open>delivery x event c\<close>: the call \<open>c\<close> is an invocation of the event callback of hook
  \<open>x\<close> with \<open>event\<close>. A hook that is in the list gets deliveries of the dispatched
  event and then, at most once, its destruction.
\<close>

fun delivery :: "32 word \<Rightarrow> ast_framehook_event \<Rightarrow> call \<Rightarrow> bool" where
  "delivery x event (Event_cb y ev f) = (y = x \<and> ev = event)"
| "delivery x event (Destroy_cb y) = False"
| "delivery x event (Frfree f) = False"
| "delivery x event (Free_hook y) = False"

lemma deliveries_on_event:
  "list_all (delivery x event) (calls_on x [Event_cb y event frame])"
  by simp

lemma traverse_present:
  assumes "distinct (map id_fh hs)" and "present_in x d hs"
    and "pass_result (framehook_list_traverse hs k num skip frame event tr) = Some (hs', tr')"
  shows "\<exists>evs. list_all (delivery x event) evs \<and>
           ((x \<notin> id_fh ` set hs' \<and> calls_on x tr' = calls_on x tr @ evs @ destroy_calls x d) \<or>
            (present_in x d hs' \<and> calls_on x tr' = calls_on x tr @ evs))"
proof -
  let ?P = "\<lambda>tr hs' tr'. \<exists>evs. list_all (delivery x event) evs \<and>
           ((x \<notin> id_fh ` set hs' \<and> calls_on x tr' = calls_on x tr @ evs @ destroy_calls x d) \<or>
            (present_in x d hs' \<and> calls_on x tr' = calls_on x tr @ evs))"
  let ?Q = "\<lambda>hs k num tr R. distinct (map id_fh hs) \<and> present_in x d hs \<longrightarrow>
    (\<forall>hs' tr'. pass_result R = Some (hs', tr') \<longrightarrow> ?P tr hs' tr')"
  have "?Q hs k num tr (framehook_list_traverse hs k num skip frame event tr)"
  proof (rule traverse_rule [where Q = ?Q], goal_cases)
    case (1 hs k num tr)
    show ?case
    proof (intro impI allI)
      fix hs' tr'
      assume a: "distinct (map id_fh hs) \<and> present_in x d hs"
        and R: "pass_result (Pass_done hs tr) = Some (hs', tr')"
      have "list_all (delivery x event) []"
        by simp
      moreover have "present_in x d hs' \<and> calls_on x tr' = calls_on x tr @ []"
        using a R by simp
      ultimately show "?P tr hs' tr'"
        by blast
    qed
  next
    case (3 hs k num tr r R)
    show ?case
    proof (intro impI allI)
      fix hs' tr'
      assume a: "distinct (map id_fh hs) \<and> present_in x d hs"
        and R: "pass_result R = Some (hs', tr')"
      from a obtain h where h: "h \<in> set hs" "id_fh h = x" "destroy_cb (i_fh h) = d"
        by (auto simp: present_in_def)
      have ids: "map id_fh (fst r) = map id_fh (take k hs @ drop (Suc k) hs)"
        using destroy_ids [OF 3(3)] .
      have dist: "distinct (map id_fh (fst r))"
        using ids a unlink_distinct [of hs k] by simp
      show "?P tr hs' tr'"
      proof (cases "id_fh (hs ! k) = x")
        case True
        then have "hs ! k = h"
          using distinct_ids_same [of hs "hs ! k" h] a h nth_mem [OF 3(1)] by simp
        then have log: "calls_on x (snd r) = destroy_calls x d"
          using destroy_calls_on [OF 3(3), of x] True h(3) by simp
        have "x \<notin> id_fh ` set (take k hs @ drop (Suc k) hs)"
          using unlink_removes_id [of hs k] a 3(1) True by simp
        then have "x \<notin> id_fh ` set (fst r)"
          using ids by (metis list.set_map)
        then have "x \<notin> id_fh ` set hs' \<and> calls_on x tr' = calls_on x (tr @ snd r)"
          using traverse_absent [of x "fst r" k num skip frame event "tr @ snd r" hs' tr'] R 3(4)
          by simp
        with log have "x \<notin> id_fh ` set hs' \<and>
            calls_on x tr' = calls_on x tr @ [] @ destroy_calls x d"
          by simp
        moreover have "list_all (delivery x event) []"
          by simp
        ultimately show ?thesis
          by blast
      next
        case False
        then have "h \<noteq> hs ! k"
          using h(2) by auto
        then have "h \<in> set (take k hs @ drop (Suc k) hs)"
          using h(1) split_at [OF 3(1)]
          by (metis Un_iff insert_iff list.set(2) set_append)
        then have "present_in x d (take k hs @ drop (Suc k) hs)"
          using h by (auto simp: present_in_def)
        then have "present_in x d (fst r)"
          using same_hooks_present [OF destroy_same_hooks [OF 3(3)], of x d] by simp
        with 3(5) dist R have "?P (tr @ snd r) hs' tr'"
          by blast
        moreover have "calls_on x (snd r) = []"
          using destroy_calls_on [OF 3(3), of x] False by simp
        ultimately show ?thesis
          by simp
      qed
    qed
  next
    case (7 hs k num tr cb fr d' dets)
    show ?case
    proof (intro impI allI)
      fix hs' tr'
      assume a: "distinct (map id_fh hs) \<and> present_in x d hs"
        and R: "pass_result (Pass_break (after_callback hs k d' dets) (skip[num := True]) fr
                 (tr @ [Event_cb (id_fh (hs ! k)) event frame])) = Some (hs', tr')"
      have "present_in x d (after_callback hs k d' dets)"
        using same_hooks_present [OF same_hooks_callback [of hs k d' dets], of x d] a by simp
      with R have "present_in x d hs' \<and>
          calls_on x tr' = calls_on x tr @ calls_on x [Event_cb (id_fh (hs ! k)) event frame]"
        by auto
      with deliveries_on_event [of x event "id_fh (hs ! k)" frame] show "?P tr hs' tr'"
        by blast
    qed
  next
    case (8 hs k num tr cb d' dets R)
    show ?case
    proof (intro impI allI)
      fix hs' tr'
      assume a: "distinct (map id_fh hs) \<and> present_in x d hs"
        and R: "pass_result R = Some (hs', tr')"
      let ?ev = "calls_on x [Event_cb (id_fh (hs ! k)) event frame]"
      have "present_in x d (after_callback hs k d' dets)"
        using same_hooks_present [OF same_hooks_callback [of hs k d' dets], of x d] a by simp
      with 8(8) a R obtain evs where evs: "list_all (delivery x event) evs"
        "(x \<notin> id_fh ` set hs' \<and>
            calls_on x tr' =
              calls_on x (tr @ [Event_cb (id_fh (hs ! k)) event frame]) @ evs @ destroy_calls x d) \<or>
         (present_in x d hs' \<and>
            calls_on x tr' = calls_on x (tr @ [Event_cb (id_fh (hs ! k)) event frame]) @ evs)"
        by auto
      have "list_all (delivery x event) (?ev @ evs)"
        using evs(1) deliveries_on_event [of x event "id_fh (hs ! k)" frame] by simp
      moreover have "(x \<notin> id_fh ` set hs' \<and>
            calls_on x tr' = calls_on x tr @ (?ev @ evs) @ destroy_calls x d) \<or>
         (present_in x d hs' \<and> calls_on x tr' = calls_on x tr @ (?ev @ evs))"
        using evs(2) by (simp only: calls_on_append append_assoc)
      ultimately show "?P tr hs' tr'"
        by blast
    qed
  next
    case (5 hs k num tr R)
    then show ?case by blast
  qed simp_all
  with assms show ?thesis by blast
qed

lemma loop_present:
  "distinct (map id_fh hs) \<Longrightarrow> present_in x d hs \<Longrightarrow>
   framehook_list_loop hs skip frame event tr p = Inr (fr, hs', tr', p') \<Longrightarrow>
   \<exists>evs. list_all (delivery x event) evs \<and>
     ((x \<notin> id_fh ` set hs' \<and> calls_on x tr' = calls_on x tr @ evs @ destroy_calls x d) \<or>
      (present_in x d hs' \<and> calls_on x tr' = calls_on x tr @ evs))"
proof (induction hs skip frame event tr p rule: framehook_list_loop.induct)
  case (1 hs skip frame event tr passes)
  show ?case
  proof (cases "framehook_list_traverse hs 0 0 skip frame event tr")
    case (Pass_done hs1 tr1)
    then have "hs' = hs1" "tr' = tr1"
      using "1.prems"(3) by (simp_all add: framehook_list_loop.simps [of hs])
    then show ?thesis
      using traverse_present [of hs x d 0 0 skip frame event tr hs1 tr1] "1.prems"(1,2) Pass_done
      by simp
  next
    case (Pass_break hs1 skip1 fr1 tr1)
    have rest: "framehook_list_loop hs1 skip1 fr1 event tr1 (Suc passes) = Inr (fr, hs', tr', p')"
      using "1.prems"(3) Pass_break by (simp add: framehook_list_loop.simps [of hs])
    have dist: "distinct (map id_fh hs1)"
      using traverse_distinct [of hs 0 0 skip frame event tr hs1 tr1] "1.prems"(1) Pass_break
      by simp
    from traverse_present [of hs x d 0 0 skip frame event tr hs1 tr1] "1.prems"(1,2) Pass_break
    obtain evs1 where evs1: "list_all (delivery x event) evs1"
      "(x \<notin> id_fh ` set hs1 \<and> calls_on x tr1 = calls_on x tr @ evs1 @ destroy_calls x d) \<or>
       (present_in x d hs1 \<and> calls_on x tr1 = calls_on x tr @ evs1)"
      by auto
    from evs1(2) show ?thesis
    proof
      assume a: "x \<notin> id_fh ` set hs1 \<and> calls_on x tr1 = calls_on x tr @ evs1 @ destroy_calls x d"
      then have "x \<notin> id_fh ` set hs' \<and> calls_on x tr' = calls_on x tr @ evs1 @ destroy_calls x d"
        using loop_absent [OF _ rest, of x] by simp
      with evs1(1) show ?thesis
        by blast
    next
      assume a: "present_in x d hs1 \<and> calls_on x tr1 = calls_on x tr @ evs1"
      with "1.IH" [OF Pass_break dist _ rest] obtain evs2 where
        evs2: "list_all (delivery x event) evs2"
        "(x \<notin> id_fh ` set hs' \<and> calls_on x tr' = calls_on x tr1 @ evs2 @ destroy_calls x d) \<or>
         (present_in x d hs' \<and> calls_on x tr' = calls_on x tr1 @ evs2)"
        by auto
      have "list_all (delivery x event) (evs1 @ evs2)"
        using evs1(1) evs2(1) by simp
      moreover have "(x \<notin> id_fh ` set hs' \<and>
            calls_on x tr' = calls_on x tr @ (evs1 @ evs2) @ destroy_calls x d) \<or>
         (present_in x d hs' \<and> calls_on x tr' = calls_on x tr @ (evs1 @ evs2))"
        using evs2(2) a by simp
      ultimately show ?thesis
        by blast
    qed
  next
    case (Pass_fault e)
    with "1.prems"(3) show ?thesis
      by (simp add: framehook_list_loop.simps [of hs])
  qed
qed

lemma push_event_present:
  assumes "list_ok l" and "distinct (map id_fh (list_fh l))" and "present_in x d (list_fh l)"
  shows "\<exists>fr l' tr p evs. framehook_list_push_event (Some l) frame event = Inr (fr, Some l', tr, p) \<and>
           list_ok l' \<and> distinct (map id_fh (list_fh l')) \<and> list_all (delivery x event) evs \<and>
           ((x \<notin> id_fh ` set (list_fh l') \<and> calls_on x tr = evs @ destroy_calls x d) \<or>
            (present_in x d (list_fh l') \<and> calls_on x tr = evs))"
proof -
  from push_event_passes [OF assms(1), of frame event] obtain fr l' tr p where
    r: "framehook_list_push_event (Some l) frame event = Inr (fr, Some l', tr, p)" "list_ok l'"
    by blast
  then have loop: "framehook_list_loop (list_fh l) (replicate (unat (count l)) False) frame event [] 0 =
      Inr (fr, list_fh l', tr, p)"
    by (auto simp: framehook_list_push_event_def split: sum.splits)
  from loop_present [OF assms(2,3) loop] obtain evs where
    "list_all (delivery x event) evs"
    "(x \<notin> id_fh ` set (list_fh l') \<and> calls_on x tr = evs @ destroy_calls x d) \<or>
     (present_in x d (list_fh l') \<and> calls_on x tr = evs)"
    by auto
  moreover have "distinct (map id_fh (list_fh l'))"
    using loop_distinct [OF assms(2) loop] .
  ultimately show ?thesis
    using r by blast
qed

subsection \<open>The life of a hook\<close>

text \<open>
  \<open>life x d l tr\<close>: so far the log holds for hook \<open>x\<close> read and write deliveries only,
  followed by its destruction exactly if the hook is no longer in the list.
\<close>

definition rw_delivery :: "32 word \<Rightarrow> call \<Rightarrow> bool" where
  "rw_delivery x c \<longleftrightarrow>
     delivery x AST_FRAMEHOOK_EVENT_READ c \<or> delivery x AST_FRAMEHOOK_EVENT_WRITE c"

definition life :: "32 word \<Rightarrow> bool \<Rightarrow> 'd ast_framehook_list \<Rightarrow> call list \<Rightarrow> bool" where
  "life x d l tr \<longleftrightarrow>
     unat x \<le> unat (id_count l) \<and>
     (\<exists>evs. list_all (rw_delivery x) evs \<and>
        ((present_in x d (list_fh l) \<and> calls_on x tr = evs) \<or>
         (x \<notin> id_fh ` set (list_fh l) \<and> calls_on x tr = evs @ destroy_calls x d)))"

lemma lifeI:
  assumes "unat x \<le> unat (id_count l)" and "list_all (rw_delivery x) evs"
    and "(present_in x d (list_fh l) \<and> calls_on x tr = evs) \<or>
         (x \<notin> id_fh ` set (list_fh l) \<and> calls_on x tr = evs @ destroy_calls x d)"
  shows "life x d l tr"
  unfolding life_def using assms by blast

lemma life_same_hooks:
  assumes "life x d l tr" and "list_all2 same_hook (list_fh l) hs"
  shows "life x d (l\<lparr>list_fh := hs\<rparr>) tr"
proof -
  have "id_fh ` set hs = id_fh ` set (list_fh l)"
    using assms(2) by (rule same_hooks_id_set)
  moreover have "present_in x d hs" if "present_in x d (list_fh l)"
    using assms(2) that by (rule same_hooks_present)
  ultimately show ?thesis
    using assms(1) unfolding life_def by auto
qed

lemma life_detach:
  assumes "life x d l tr"
  shows "\<exists>l1. fst (snd (ast_framehook_detach (Some l) y)) = Some l1 \<and> life x d l1 tr"
proof -
  have "life x d (l\<lparr>list_fh := fst (detach_traverse (word_of_int y) (list_fh l))\<rparr>) tr"
    using assms same_hooks_detach_traverse by (rule life_same_hooks)
  then show ?thesis
    by (simp add: ast_framehook_detach_def)
qed

lemma life_attach:
  assumes "run_ok l" and "unat (id_count l) < 2 ^ 32 - 1" and "life x d l tr"
  shows "\<exists>l1. fst (snd (ast_framehook_attach v ch cl (Some l) ifc)) = Some l1 \<and>
           life x d l1 (tr @ snd (snd (ast_framehook_attach v ch cl (Some l) ifc)))"
proof (cases "attach_succeeds v ch cl (Some l) ifc")
  case False
  then show ?thesis
    using assms(3) by (simp add: attach_failure_keeps)
next
  case True
  let ?new = "id_count l + 1"
  from attach_success_form [OF True] obtain cb fr dat dets where
    r: "ast_framehook_attach v ch cl (Some l) ifc =
      (sint ?new,
       Some (l\<lparr>count := count l + 1, id_count := ?new,
               list_fh := detach_calls dets
                 (list_fh l @
                  [\<lparr>i_fh = ifc\<lparr>data := dat\<rparr>, id_fh = ?new, detach_and_destroy_me = False\<rparr>])\<rparr>),
       [Event_cb ?new AST_FRAMEHOOK_EVENT_ATTACHED 0] @ (if fr \<noteq> 0 then [Frfree fr] else []))"
    by auto
  let ?fh = "\<lparr>i_fh = ifc\<lparr>data := dat\<rparr>, id_fh = ?new, detach_and_destroy_me = False\<rparr>"
  let ?l1 = "l\<lparr>count := count l + 1, id_count := ?new, list_fh := list_fh l @ [?fh]\<rparr>"
  have new: "unat ?new = unat (id_count l) + 1"
    using assms(2) by (rule unat_Suc_32)
  have x: "unat x \<le> unat (id_count l)"
    using assms(3) by (simp add: life_def)
  then have ne: "?new \<noteq> x"
    using new by auto
  have log: "calls_on x ([Event_cb ?new AST_FRAMEHOOK_EVENT_ATTACHED 0]
      @ (if fr \<noteq> 0 then [Frfree fr] else [])) = []"
    using ne by (simp add: calls_on_def)
  have "life x d ?l1 tr"
    using assms(3) new ne unfolding life_def present_in_def by auto
  moreover have "list_all2 same_hook (list_fh ?l1) (detach_calls dets (list_fh ?l1))"
    by (rule same_hooks_detach_calls)
  ultimately have "life x d (?l1\<lparr>list_fh := detach_calls dets (list_fh ?l1)\<rparr>) tr"
    by (rule life_same_hooks)
  then have "life x d (?l1\<lparr>list_fh := detach_calls dets (list_fh ?l1)\<rparr>)
      (tr @ [Event_cb ?new AST_FRAMEHOOK_EVENT_ATTACHED 0] @ (if fr \<noteq> 0 then [Frfree fr] else []))"
    using log unfolding life_def by (simp only: calls_on_append append_Nil2)
  then show ?thesis
    unfolding r by simp
qed

lemma deliveries_rw:
  assumes "list_all (delivery x event) evs"
    and "event = AST_FRAMEHOOK_EVENT_READ \<or> event = AST_FRAMEHOOK_EVENT_WRITE"
  shows "list_all (rw_delivery x) evs"
  using assms by (auto simp: list_all_iff rw_delivery_def)

lemma life_dispatch:
  assumes "run_ok l" and "life x d l tr"
    and "event = AST_FRAMEHOOK_EVENT_READ \<or> event = AST_FRAMEHOOK_EVENT_WRITE"
  shows "\<exists>fr l1 tr1 p. framehook_list_push_event (Some l) frame event = Inr (fr, Some l1, tr1, p) \<and>
           run_ok l1 \<and> id_count l1 = id_count l \<and> life x d l1 (tr @ tr1)"
proof -
  have "chan_ok (Some l)"
    using assms(1) by (simp add: chan_ok_def)
  from dispatch_step [OF this, of frame event] obtain fr l1 tr1 p where
    r: "framehook_list_push_event (Some l) frame event = Inr (fr, Some l1, tr1, p)"
      "run_ok l1" "id_count l1 = id_count l"
    by (auto simp: chan_ok_def idc_def split: option.splits)
  then have loop: "framehook_list_loop (list_fh l) (replicate (unat (count l)) False) frame event [] 0 =
      Inr (fr, list_fh l1, tr1, p)"
    by (auto simp: framehook_list_push_event_def split: sum.splits)
  have dist: "distinct (map id_fh (list_fh l))"
    using assms(1) by (simp add: run_ok_def)
  from assms(2) obtain evs where evs: "unat x \<le> unat (id_count l)" "list_all (rw_delivery x) evs"
    "(present_in x d (list_fh l) \<and> calls_on x tr = evs) \<or>
     (x \<notin> id_fh ` set (list_fh l) \<and> calls_on x tr = evs @ destroy_calls x d)"
    by (auto simp: life_def)
  from evs(3) have "life x d l1 (tr @ tr1)"
  proof
    assume a: "present_in x d (list_fh l) \<and> calls_on x tr = evs"
    from loop_present [OF dist _ loop, of x d] a obtain evs1 where
      evs1: "list_all (delivery x event) evs1"
      "(x \<notin> id_fh ` set (list_fh l1) \<and> calls_on x tr1 = evs1 @ destroy_calls x d) \<or>
       (present_in x d (list_fh l1) \<and> calls_on x tr1 = evs1)"
      by auto
    have "list_all (rw_delivery x) (evs @ evs1)"
      using evs(2) deliveries_rw [OF evs1(1) assms(3)] by simp
    moreover have "(present_in x d (list_fh l1) \<and> calls_on x (tr @ tr1) = evs @ evs1) \<or>
       (x \<notin> id_fh ` set (list_fh l1) \<and> calls_on x (tr @ tr1) = (evs @ evs1) @ destroy_calls x d)"
      using evs1(2) a by auto
    moreover have "unat x \<le> unat (id_count l1)"
      using evs(1) r(3) by simp
    ultimately show ?thesis
      by (intro lifeI)
  next
    assume a: "x \<notin> id_fh ` set (list_fh l) \<and> calls_on x tr = evs @ destroy_calls x d"
    then have "x \<notin> id_fh ` set (list_fh l1) \<and> calls_on x tr1 = []"
      using loop_absent [OF _ loop, of x] by simp
    with a have "(present_in x d (list_fh l1) \<and> calls_on x (tr @ tr1) = evs) \<or>
       (x \<notin> id_fh ` set (list_fh l1) \<and> calls_on x (tr @ tr1) = evs @ destroy_calls x d)"
      by simp
    moreover have "unat x \<le> unat (id_count l1)"
      using evs(1) r(3) by simp
    ultimately show ?thesis
      using evs(2) by (intro lifeI)
  qed
  with r show ?thesis
    by blast
qed

lemma run_life:
  assumes "run_ok l" and "unat (id_count l) + length calls < 2 ^ 32" and "life x d l tr"
  shows "\<exists>l' tr'. run v calls (Some l) tr = Inr (Some l', tr') \<and> run_ok l' \<and> life x d l' tr'"
  using assms
proof (induction calls arbitrary: l tr)
  case Nil
  then show ?case by simp
next
  case (Cons c calls)
  have ok: "chan_ok (Some l)"
    using Cons.prems(1) by (simp add: chan_ok_def)
  show ?case
  proof (cases c)
    case (Attach ifc ch cl)
    have small: "unat (id_count l) < 2 ^ 32 - 1"
      using Cons.prems(2) by simp
    then have small': "unat (idc (Some l)) < 2 ^ 32 - 1"
      by (simp add: idc_def)
    from life_attach [OF Cons.prems(1) small Cons.prems(3), of v ch cl ifc] obtain l1 where
      l1: "fst (snd (ast_framehook_attach v ch cl (Some l) ifc)) = Some l1"
        "life x d l1 (tr @ snd (snd (ast_framehook_attach v ch cl (Some l) ifc)))"
      by blast
    from attach_step [OF ok small', of v ch cl ifc] l1(1) have
      "run_ok l1" "unat (id_count l1) \<le> unat (id_count l) + 1"
      by (simp_all add: chan_ok_def idc_def)
    then have "unat (id_count l1) + length calls < 2 ^ 32"
      using Cons.prems(2) by simp
    from Cons.IH [OF \<open>run_ok l1\<close> this l1(2)] l1(1) Attach show ?thesis
      by simp
  next
    case (Detach y)
    from life_detach [OF Cons.prems(3), of y] obtain l1 where
      l1: "fst (snd (ast_framehook_detach (Some l) y)) = Some l1" "life x d l1 tr"
      by blast
    from detach_step [OF ok, of y] l1(1) have "run_ok l1" "id_count l1 = id_count l"
      "snd (snd (ast_framehook_detach (Some l) y)) = []"
      by (simp_all add: chan_ok_def idc_def)
    then have "unat (id_count l1) + length calls < 2 ^ 32"
      using Cons.prems(2) by simp
    from Cons.IH [OF \<open>run_ok l1\<close> this l1(2)] l1(1) Detach
      \<open>snd (snd (ast_framehook_detach (Some l) y)) = []\<close>
    show ?thesis
      by simp
  next
    case (Read_event f)
    from life_dispatch [OF Cons.prems(1,3), of AST_FRAMEHOOK_EVENT_READ f] obtain fr l1 tr1 p where
      r: "framehook_list_push_event (Some l) f AST_FRAMEHOOK_EVENT_READ = Inr (fr, Some l1, tr1, p)"
        "run_ok l1" "id_count l1 = id_count l" "life x d l1 (tr @ tr1)"
      by blast
    then have "unat (id_count l1) + length calls < 2 ^ 32"
      using Cons.prems(2) by simp
    from Cons.IH [OF r(2) this r(4)] r(1) Read_event show ?thesis
      by (simp add: ast_framehook_list_read_event_def)
  next
    case (Write_event f)
    from life_dispatch [OF Cons.prems(1,3), of AST_FRAMEHOOK_EVENT_WRITE f] obtain fr l1 tr1 p where
      r: "framehook_list_push_event (Some l) f AST_FRAMEHOOK_EVENT_WRITE = Inr (fr, Some l1, tr1, p)"
        "run_ok l1" "id_count l1 = id_count l" "life x d l1 (tr @ tr1)"
      by blast
    then have "unat (id_count l1) + length calls < 2 ^ 32"
      using Cons.prems(2) by simp
    from Cons.IH [OF r(2) this r(4)] r(1) Write_event show ?thesis
      by (simp add: ast_framehook_list_write_event_def)
  qed
qed

lemma lifetime:
  assumes "run_ok l" and "unat (id_count l) + length calls < 2 ^ 32"
    and "present_in x d (list_fh l)"
  shows "\<exists>l' tr' tr'' evs.
           run v calls (Some l) [] = Inr (Some l', tr') \<and>
           ast_framehook_list_destroy (Some l') = Inr (0, None, tr'') \<and>
           list_all (rw_delivery x) evs \<and>
           calls_on x (tr' @ tr'') = evs @ destroy_calls x d"
proof -
  from assms(3) obtain h where "h \<in> set (list_fh l)" "id_fh h = x"
    by (auto simp: present_in_def)
  then have "unat x \<le> unat (id_count l)"
    using assms(1) by (auto simp: run_ok_def)
  moreover have "list_all (rw_delivery x) []"
    by simp
  moreover have "(present_in x d (list_fh l) \<and> calls_on x [] = []) \<or>
      (x \<notin> id_fh ` set (list_fh l) \<and> calls_on x [] = [] @ destroy_calls x d)"
    using assms(3) by simp
  ultimately have "life x d l []"
    by (rule lifeI)
  from run_life [OF assms(1,2) this, of v] obtain l' tr' where
    r: "run v calls (Some l) [] = Inr (Some l', tr')" "run_ok l'" "life x d l' tr'"
    by blast
  have ok: "hooks_ok (list_fh l')" "distinct (map id_fh (list_fh l'))"
    using r(2) by (simp_all add: run_ok_def)
  from r(3) obtain evs where evs: "list_all (rw_delivery x) evs"
    "(present_in x d (list_fh l') \<and> calls_on x tr' = evs) \<or>
     (x \<notin> id_fh ` set (list_fh l') \<and> calls_on x tr' = evs @ destroy_calls x d)"
    by (auto simp: life_def)
  from evs(2) have "\<exists>tr''. ast_framehook_list_destroy (Some l') = Inr (0, None, tr'') \<and>
      calls_on x (tr' @ tr'') = evs @ destroy_calls x d"
  proof
    assume a: "present_in x d (list_fh l') \<and> calls_on x tr' = evs"
    with teardown_flagged_total [OF ok, of x d] show ?thesis
      by auto
  next
    assume a: "x \<notin> id_fh ` set (list_fh l') \<and> calls_on x tr' = evs @ destroy_calls x d"
    from list_destroy_returns [OF ok(1), of "[]"] obtain tr'' where
      t: "list_destroy_traverse (list_fh l') [] = Inr tr''"
      by blast
    then have "calls_on x tr'' = []"
      using list_destroy_absent [OF _ t, of x] a by simp
    with a t show ?thesis
      by (simp add: ast_framehook_list_destroy_def)
  qed
  with r(1) evs(1) show ?thesis
    by blast
qed

text \<open>
  Claim C2, amended. \<open>ast_framehook_detach\<close> calls nothing and unlinks nothing: when it
  returns 0, the list has the same entries as before and the hook with the given id is
  flagged. On a sound list a dispatch never faults, whatever detach calls its callbacks
  make, and leaves a sound list; teardown never faults either.

  When a callback calls \<open>ast_framehook_detach\<close> during a pass, on its own hook or on
  another one, the hook \<open>z\<close> it names is flagged at once. The rest of that pass logs for
  \<open>z\<close> the event in progress, if \<open>z\<close> is the caller, and then either destroys \<open>z\<close> (the
  traversal reaches the entry again before the dispatch ends) or leaves it flagged.

  For a flagged hook \<open>x\<close> in a list with distinct ids:
  \<^item> from any point of a pass on, the pass either destroys the hook, logging for it
    exactly the DETACHED event, the destroy callback if there is one, and the release,
    or leaves it flagged and logs nothing for it;
  \<^item> from any point between two passes on, the rest of the dispatch logs for it
    exactly that sequence, and the hook is gone from the list afterwards; so does a
    whole dispatch, which returns, and so does \<open>ast_framehook_list_destroy\<close>, which
    returns as well.
  In none of these does its callback receive the dispatched event. Once the hook is
  gone, neither a dispatch nor teardown logs anything more for it.

  Over a whole life: for a hook in a list that a run of calls has built, any further
  run of attach, detach, read and write calls followed by teardown logs for the hook
  read and write events only, and then the DETACHED event, the destroy callback if
  there is one, and the release, once.
\<close>

theorem detach_defers_destruction:
  "snd (snd (ast_framehook_detach chan0 y)) = [] \<and>
   (fst (ast_framehook_detach (Some l0) y) = 0 \<longrightarrow>
      (\<exists>l1 d0. fst (snd (ast_framehook_detach (Some l0) y)) = Some l1 \<and>
         count l1 = count l0 \<and> id_count l1 = id_count l0 \<and>
         map id_fh (list_fh l1) = map id_fh (list_fh l0) \<and>
         flagged_in (word_of_int y) d0 (list_fh l1))) \<and>
   (list_ok l \<longrightarrow>
      (\<exists>fr1 l1 tr1 p1.
         framehook_list_push_event (Some l) frame event = Inr (fr1, Some l1, tr1, p1) \<and>
         list_ok l1) \<and>
      (\<exists>tr1. ast_framehook_list_destroy (Some l) = Inr (0, None, tr1))) \<and>
   (distinct (map id_fh hs) \<and> k < length hs \<and> \<not> detach_and_destroy_me (hs ! k) \<and>
    num < length skip \<and> \<not> skip ! num \<and> event_cb (i_fh (hs ! k)) = Some cb \<and>
    cb frame event (data (i_fh (hs ! k))) = (fr0, dat, dets) \<and>
    z \<in> set dets \<and> present_in (word_of_int z) dz hs \<and>
    pass_result (framehook_list_traverse hs k num skip frame event tr) = Some (hs', tr') \<longrightarrow>
      (word_of_int z \<notin> id_fh ` set hs' \<and>
       calls_on (word_of_int z) tr' =
         calls_on (word_of_int z) tr @
         calls_on (word_of_int z) [Event_cb (id_fh (hs ! k)) event frame] @
         destroy_calls (word_of_int z) dz) \<or>
      (flagged_in (word_of_int z) dz hs' \<and>
       calls_on (word_of_int z) tr' =
         calls_on (word_of_int z) tr @
         calls_on (word_of_int z) [Event_cb (id_fh (hs ! k)) event frame])) \<and>
   (distinct (map id_fh hs) \<and> flagged_in x d hs \<longrightarrow>
      (pass_result (framehook_list_traverse hs k num skip frame event tr) = Some (hs', tr') \<longrightarrow>
         (x \<notin> id_fh ` set hs' \<and> calls_on x tr' = calls_on x tr @ destroy_calls x d) \<or>
         (flagged_in x d hs' \<and> calls_on x tr' = calls_on x tr)) \<and>
      (framehook_list_loop hs skip frame event tr p = Inr (fr, hs', tr', p') \<longrightarrow>
         x \<notin> id_fh ` set hs' \<and> calls_on x tr' = calls_on x tr @ destroy_calls x d) \<and>
      (list_fh l = hs \<and> ast_framehook_list_read_event (Some l) frame = Inr (fr, chan', tr', p') \<longrightarrow>
         calls_on x tr' = destroy_calls x d \<and>
         (\<exists>l'. chan' = Some l' \<and> x \<notin> id_fh ` set (list_fh l'))) \<and>
      (list_fh l = hs \<and> ast_framehook_list_write_event (Some l) frame = Inr (fr, chan', tr', p') \<longrightarrow>
         calls_on x tr' = destroy_calls x d \<and>
         (\<exists>l'. chan' = Some l' \<and> x \<notin> id_fh ` set (list_fh l'))) \<and>
      (list_fh l = hs \<and> ast_framehook_list_destroy (Some l) = Inr (res, chan', tr') \<longrightarrow>
         calls_on x tr' = destroy_calls x d) \<and>
      (list_fh l = hs \<and> list_ok l \<longrightarrow>
         (\<exists>fr1 l1 tr1 p1.
            framehook_list_push_event (Some l) frame event = Inr (fr1, Some l1, tr1, p1) \<and>
            calls_on x tr1 = destroy_calls x d \<and> x \<notin> id_fh ` set (list_fh l1))) \<and>
      (list_fh l = hs \<and> hooks_ok hs \<longrightarrow>
         (\<exists>tr1. ast_framehook_list_destroy (Some l) = Inr (0, None, tr1) \<and>
            calls_on x tr1 = destroy_calls x d))) \<and>
   (x \<notin> id_fh ` set hs \<and>
    framehook_list_loop hs skip frame event tr p = Inr (fr, hs', tr', p') \<longrightarrow>
      x \<notin> id_fh ` set hs' \<and> calls_on x tr' = calls_on x tr) \<and>
   (x \<notin> id_fh ` set (list_fh l) \<and>
    ast_framehook_list_destroy (Some l) = Inr (res, chan', tr') \<longrightarrow>
      calls_on x tr' = []) \<and>
   (run_ok l \<and> unat (id_count l) + length calls < 2 ^ 32 \<and> present_in x d (list_fh l) \<longrightarrow>
      (\<exists>l1 tr1 tr2 evs.
         run v calls (Some l) [] = Inr (Some l1, tr1) \<and>
         ast_framehook_list_destroy (Some l1) = Inr (0, None, tr2) \<and>
         list_all (rw_delivery x) evs \<and>
         calls_on x (tr1 @ tr2) = evs @ destroy_calls x d))"
proof (intro conjI impI)
  show "snd (snd (ast_framehook_detach chan0 y)) = []"
    by (simp add: ast_framehook_detach_def split: option.splits)
next
  assume "fst (ast_framehook_detach (Some l0) y) = 0"
  then show "\<exists>l1 d0. fst (snd (ast_framehook_detach (Some l0) y)) = Some l1 \<and>
         count l1 = count l0 \<and> id_count l1 = id_count l0 \<and>
         map id_fh (list_fh l1) = map id_fh (list_fh l0) \<and>
         flagged_in (word_of_int y) d0 (list_fh l1)"
    by (rule detach_flags_hook)
next
  assume "list_ok l"
  then show "\<exists>fr1 l1 tr1 p1.
         framehook_list_push_event (Some l) frame event = Inr (fr1, Some l1, tr1, p1) \<and>
         list_ok l1"
    using push_event_passes [of l frame event] by blast
next
  assume "list_ok l"
  then have "hooks_ok (list_fh l)"
    by (simp add: list_ok_def)
  then show "\<exists>tr1. ast_framehook_list_destroy (Some l) = Inr (0, None, tr1)"
    by (rule teardown_returns)
next
  assume a: "distinct (map id_fh hs) \<and> k < length hs \<and> \<not> detach_and_destroy_me (hs ! k) \<and>
    num < length skip \<and> \<not> skip ! num \<and> event_cb (i_fh (hs ! k)) = Some cb \<and>
    cb frame event (data (i_fh (hs ! k))) = (fr0, dat, dets) \<and>
    z \<in> set dets \<and> present_in (word_of_int z) dz hs \<and>
    pass_result (framehook_list_traverse hs k num skip frame event tr) = Some (hs', tr')"
  show "(word_of_int z \<notin> id_fh ` set hs' \<and>
       calls_on (word_of_int z) tr' =
         calls_on (word_of_int z) tr @
         calls_on (word_of_int z) [Event_cb (id_fh (hs ! k)) event frame] @
         destroy_calls (word_of_int z) dz) \<or>
      (flagged_in (word_of_int z) dz hs' \<and>
       calls_on (word_of_int z) tr' =
         calls_on (word_of_int z) tr @
         calls_on (word_of_int z) [Event_cb (id_fh (hs ! k)) event frame])"
    using in_callback_detach [of hs k num skip cb frame event fr0 dat dets z dz tr hs' tr'] a
    by blast
next
  assume a: "distinct (map id_fh hs) \<and> flagged_in x d hs"
    and r: "pass_result (framehook_list_traverse hs k num skip frame event tr) = Some (hs', tr')"
  show "(x \<notin> id_fh ` set hs' \<and> calls_on x tr' = calls_on x tr @ destroy_calls x d) \<or>
        (flagged_in x d hs' \<and> calls_on x tr' = calls_on x tr)"
    using traverse_flagged [OF _ _ r, of x d] a by simp
next
  assume a: "distinct (map id_fh hs) \<and> flagged_in x d hs"
    and r: "framehook_list_loop hs skip frame event tr p = Inr (fr, hs', tr', p')"
  have b: "x \<notin> id_fh ` set hs' \<and> calls_on x tr' = calls_on x tr @ destroy_calls x d"
    using loop_flagged [OF _ _ r, of x d] a by simp
  from b show "x \<notin> id_fh ` set hs'" ..
  from b show "calls_on x tr' = calls_on x tr @ destroy_calls x d" ..
next
  assume a: "distinct (map id_fh hs) \<and> flagged_in x d hs"
    and r: "list_fh l = hs \<and> ast_framehook_list_read_event (Some l) frame = Inr (fr, chan', tr', p')"
  have b: "calls_on x tr' = destroy_calls x d \<and>
      (\<exists>l'. chan' = Some l' \<and> x \<notin> id_fh ` set (list_fh l'))"
    using push_event_flagged [of l x d frame AST_FRAMEHOOK_EVENT_READ fr chan' tr' p'] a r
    by (simp add: ast_framehook_list_read_event_def)
  from b show "calls_on x tr' = destroy_calls x d" ..
  from b show "\<exists>l'. chan' = Some l' \<and> x \<notin> id_fh ` set (list_fh l')" ..
next
  assume a: "distinct (map id_fh hs) \<and> flagged_in x d hs"
    and r: "list_fh l = hs \<and> ast_framehook_list_write_event (Some l) frame = Inr (fr, chan', tr', p')"
  have b: "calls_on x tr' = destroy_calls x d \<and>
      (\<exists>l'. chan' = Some l' \<and> x \<notin> id_fh ` set (list_fh l'))"
    using push_event_flagged [of l x d frame AST_FRAMEHOOK_EVENT_WRITE fr chan' tr' p'] a r
    by (simp add: ast_framehook_list_write_event_def)
  from b show "calls_on x tr' = destroy_calls x d" ..
  from b show "\<exists>l'. chan' = Some l' \<and> x \<notin> id_fh ` set (list_fh l')" ..
next
  assume a: "distinct (map id_fh hs) \<and> flagged_in x d hs"
    and r: "list_fh l = hs \<and> ast_framehook_list_destroy (Some l) = Inr (res, chan', tr')"
  from r have "list_destroy_traverse hs [] = Inr tr'"
    by (auto simp: ast_framehook_list_destroy_def split: sum.splits)
  then show "calls_on x tr' = destroy_calls x d"
    using list_destroy_present [of hs x d "[]" tr'] a flagged_in_present [of x d hs] by simp
next
  assume a: "distinct (map id_fh hs) \<and> flagged_in x d hs"
    and r: "list_fh l = hs \<and> list_ok l"
  show "\<exists>fr1 l1 tr1 p1.
      framehook_list_push_event (Some l) frame event = Inr (fr1, Some l1, tr1, p1) \<and>
      calls_on x tr1 = destroy_calls x d \<and> x \<notin> id_fh ` set (list_fh l1)"
    using push_event_flagged_total [of l x d frame event] a r by blast
next
  assume a: "distinct (map id_fh hs) \<and> flagged_in x d hs"
    and r: "list_fh l = hs \<and> hooks_ok hs"
  show "\<exists>tr1. ast_framehook_list_destroy (Some l) = Inr (0, None, tr1) \<and>
      calls_on x tr1 = destroy_calls x d"
    using teardown_flagged_total [of l x d] a r flagged_in_present [of x d hs] by blast
next
  assume a: "x \<notin> id_fh ` set hs \<and>
    framehook_list_loop hs skip frame event tr p = Inr (fr, hs', tr', p')"
  then have b: "x \<notin> id_fh ` set hs' \<and> calls_on x tr' = calls_on x tr"
    using loop_absent [of x hs skip frame event tr p fr hs' tr' p'] by simp
  from b show "x \<notin> id_fh ` set hs'" ..
  from b show "calls_on x tr' = calls_on x tr" ..
next
  assume a: "x \<notin> id_fh ` set (list_fh l) \<and>
    ast_framehook_list_destroy (Some l) = Inr (res, chan', tr')"
  then have "list_destroy_traverse (list_fh l) [] = Inr tr'"
    by (auto simp: ast_framehook_list_destroy_def split: sum.splits)
  then show "calls_on x tr' = []"
    using list_destroy_absent [of x "list_fh l" "[]" tr'] a by simp
next
  assume a: "run_ok l \<and> unat (id_count l) + length calls < 2 ^ 32 \<and> present_in x d (list_fh l)"
  show "\<exists>l1 tr1 tr2 evs.
      run v calls (Some l) [] = Inr (Some l1, tr1) \<and>
      ast_framehook_list_destroy (Some l1) = Inr (0, None, tr2) \<and>
      list_all (rw_delivery x) evs \<and>
      calls_on x (tr1 @ tr2) = evs @ destroy_calls x d"
    using lifetime [of l calls x d v] a by blast
qed

text \<open>
  Three runs. At the list \<open>two_hooks\<close>: detaching hook 2 returns 0, logs nothing and
  flags the hook; the next write event calls hook 1 with the frame and then gives hook
  2 its DETACHED event, its destroy callback and its release, once each. At the list
  \<open>leaving_first\<close>: the callback of hook 1 detaches its own hook during a read event;
  the pass runs to its end, hook 1 is flagged and has received that event only. The
  next read event destroys hook 1 and delivers the frame to hook 2 only; with teardown
  after it, the log of hook 1 is its one read event and one destruction.
\<close>

theorem detach_defers_destruction_witness:
  "ast_framehook_detach (Some two_hooks) 2 = (0, Some two_hooks_flagged, []) \<and>
   distinct (map id_fh (list_fh two_hooks_flagged)) \<and>
   flagged_in 2 True (list_fh two_hooks_flagged) \<and>
   ast_framehook_list_write_event (Some two_hooks_flagged) 100 =
     Inr (100, Some (two_hooks_flagged\<lparr>list_fh := [entry pass_through 1]\<rparr>),
          [Event_cb 1 AST_FRAMEHOOK_EVENT_WRITE 100,
           Event_cb 2 AST_FRAMEHOOK_EVENT_DETACHED 0, Destroy_cb 2, Free_hook 2], 1) \<and>
   calls_on 2 [Event_cb 1 AST_FRAMEHOOK_EVENT_WRITE 100,
           Event_cb 2 AST_FRAMEHOOK_EVENT_DETACHED 0, Destroy_cb 2, Free_hook 2] =
     [Event_cb 2 AST_FRAMEHOOK_EVENT_DETACHED 0, Destroy_cb 2, Free_hook 2] \<and>
   distinct (map id_fh (list_fh leaving_first)) \<and>
   (0 :: nat) < length (list_fh leaving_first) \<and> (0 :: nat) < length [False, False] \<and>
   \<not> [False, False] ! 0 \<and> (1 :: int) \<in> set [1] \<and>
   \<not> detach_and_destroy_me (list_fh leaving_first ! 0) \<and>
   event_cb (i_fh (list_fh leaving_first ! 0)) = Some leaving \<and>
   leaving 100 AST_FRAMEHOOK_EVENT_READ (data (i_fh (list_fh leaving_first ! 0))) = (100, (), [1]) \<and>
   present_in 1 False (list_fh leaving_first) \<and>
   framehook_list_traverse (list_fh leaving_first) 0 0 [False, False] 100
       AST_FRAMEHOOK_EVENT_READ [] =
     Pass_done (list_fh leaving_flagged)
       [Event_cb 1 AST_FRAMEHOOK_EVENT_READ 100, Event_cb 2 AST_FRAMEHOOK_EVENT_READ 100] \<and>
   flagged_in 1 False (list_fh leaving_flagged) \<and>
   calls_on 1 [Event_cb 1 AST_FRAMEHOOK_EVENT_READ 100, Event_cb 2 AST_FRAMEHOOK_EVENT_READ 100] =
     [Event_cb 1 AST_FRAMEHOOK_EVENT_READ 100] \<and>
   run_ok leaving_first \<and>
   run 1 [Read_event 100, Read_event 101] (Some leaving_first) [] =
     Inr (Some (leaving_first\<lparr>list_fh := [entry pass_through 2]\<rparr>),
          [Event_cb 1 AST_FRAMEHOOK_EVENT_READ 100, Event_cb 2 AST_FRAMEHOOK_EVENT_READ 100,
           Event_cb 1 AST_FRAMEHOOK_EVENT_DETACHED 0, Free_hook 1,
           Event_cb 2 AST_FRAMEHOOK_EVENT_READ 101]) \<and>
   (\<exists>l1 tr1 tr2 evs.
      run 1 [Read_event 100, Read_event 101] (Some leaving_first) [] = Inr (Some l1, tr1) \<and>
      ast_framehook_list_destroy (Some l1) = Inr (0, None, tr2) \<and>
      list_all (rw_delivery 1) evs \<and>
      calls_on 1 (tr1 @ tr2) = evs @ destroy_calls 1 False)"
proof -
  have det: "ast_framehook_detach (Some two_hooks) 2 = (0, Some two_hooks_flagged, [])"
    by (simp add: ast_framehook_detach_def two_hooks_def two_hooks_flagged_def entry_def)
  have dist: "distinct (map id_fh (list_fh two_hooks_flagged))"
    by (simp add: two_hooks_flagged_def entry_def)
  have fl: "flagged_in 2 True (list_fh two_hooks_flagged)"
    by (simp add: flagged_in_def two_hooks_flagged_def entry_def hook_of_def)
  have ev: "ast_framehook_list_write_event (Some two_hooks_flagged) 100 =
     Inr (100, Some (two_hooks_flagged\<lparr>list_fh := [entry pass_through 1]\<rparr>),
          [Event_cb 1 AST_FRAMEHOOK_EVENT_WRITE 100,
           Event_cb 2 AST_FRAMEHOOK_EVENT_DETACHED 0, Destroy_cb 2, Free_hook 2], 1)"
    by (simp add: ast_framehook_list_write_event_def framehook_list_push_event_def
        framehook_list_loop.simps framehook_list_traverse.simps framehook_detach_and_destroy_def
        two_hooks_flagged_def entry_def hook_of_def pass_through_def detach_calls_def)
  have "calls_on 2 [Event_cb 1 AST_FRAMEHOOK_EVENT_WRITE 100,
           Event_cb 2 AST_FRAMEHOOK_EVENT_DETACHED 0, Destroy_cb 2, Free_hook 2] =
     destroy_calls 2 True"
    using detach_defers_destruction
      [where hs = "list_fh two_hooks_flagged" and x = 2 and d = True and l = two_hooks_flagged
        and frame = 100 and fr = 100
        and chan' = "Some (two_hooks_flagged\<lparr>list_fh := [entry pass_through 1]\<rparr>)"
        and tr' = "[Event_cb 1 AST_FRAMEHOOK_EVENT_WRITE 100,
           Event_cb 2 AST_FRAMEHOOK_EVENT_DETACHED 0, Destroy_cb 2, Free_hook 2]"
        and p' = 1]
      dist fl ev
    by blast
  then have before: "calls_on 2 [Event_cb 1 AST_FRAMEHOOK_EVENT_WRITE 100,
           Event_cb 2 AST_FRAMEHOOK_EVENT_DETACHED 0, Destroy_cb 2, Free_hook 2] =
     [Event_cb 2 AST_FRAMEHOOK_EVENT_DETACHED 0, Destroy_cb 2, Free_hook 2]"
    by (simp add: destroy_calls_def)
  have at: "(0 :: nat) < length (list_fh leaving_first)" "(0 :: nat) < length [False, False]"
    "\<not> [False, False] ! 0" "(1 :: int) \<in> set [1]"
    by (simp_all add: leaving_first_def)
  have inside: "distinct (map id_fh (list_fh leaving_first))"
    "\<not> detach_and_destroy_me (list_fh leaving_first ! 0)"
    "event_cb (i_fh (list_fh leaving_first ! 0)) = Some leaving"
    "leaving 100 AST_FRAMEHOOK_EVENT_READ (data (i_fh (list_fh leaving_first ! 0))) = (100, (), [1])"
    "present_in 1 False (list_fh leaving_first)"
    by (simp_all add: leaving_first_def entry_def hook_of_def leaving_def present_in_def)
  have pass: "framehook_list_traverse (list_fh leaving_first) 0 0 [False, False] 100
       AST_FRAMEHOOK_EVENT_READ [] =
     Pass_done (list_fh leaving_flagged)
       [Event_cb 1 AST_FRAMEHOOK_EVENT_READ 100, Event_cb 2 AST_FRAMEHOOK_EVENT_READ 100]"
    by (simp add: framehook_list_traverse.simps leaving_first_def leaving_flagged_def entry_def
        hook_of_def pass_through_def leaving_def detach_calls_def)
  have after: "flagged_in 1 False (list_fh leaving_flagged) \<and>
      calls_on 1 [Event_cb 1 AST_FRAMEHOOK_EVENT_READ 100, Event_cb 2 AST_FRAMEHOOK_EVENT_READ 100] =
        [Event_cb 1 AST_FRAMEHOOK_EVENT_READ 100]"
    using detach_defers_destruction
      [where hs = "list_fh leaving_first" and k = 0 and num = 0 and skip = "[False, False]"
        and cb = leaving and frame = 100 and event = AST_FRAMEHOOK_EVENT_READ and fr0 = 100
        and dat = "()" and dets = "[1]" and z = 1 and dz = False and tr = "[]"
        and hs' = "list_fh leaving_flagged"
        and tr' = "[Event_cb 1 AST_FRAMEHOOK_EVENT_READ 100, Event_cb 2 AST_FRAMEHOOK_EVENT_READ 100]"]
      at inside pass
    by (simp add: leaving_flagged_def entry_def hook_of_def flagged_in_def calls_on_def)
  have ok: "run_ok leaving_first"
    by (simp add: run_ok_def hooks_ok_def leaving_first_def entry_def hook_of_def)
  have run: "run 1 [Read_event 100, Read_event 101] (Some leaving_first) [] =
     Inr (Some (leaving_first\<lparr>list_fh := [entry pass_through 2]\<rparr>),
          [Event_cb 1 AST_FRAMEHOOK_EVENT_READ 100, Event_cb 2 AST_FRAMEHOOK_EVENT_READ 100,
           Event_cb 1 AST_FRAMEHOOK_EVENT_DETACHED 0, Free_hook 1,
           Event_cb 2 AST_FRAMEHOOK_EVENT_READ 101])"
    by (simp add: ast_framehook_list_read_event_def framehook_list_push_event_def
        framehook_list_loop.simps framehook_list_traverse.simps framehook_detach_and_destroy_def
        leaving_first_def entry_def hook_of_def pass_through_def leaving_def detach_calls_def)
  have budget: "unat (id_count leaving_first) + length [Read_event 100, Read_event 101 :: unit api_call]
      < 2 ^ 32"
    by (simp add: leaving_first_def)
  have "run_ok leaving_first \<and>
      unat (id_count leaving_first) + length [Read_event 100, Read_event 101 :: unit api_call]
        < 2 ^ 32 \<and>
      present_in 1 False (list_fh leaving_first) \<longrightarrow>
      (\<exists>l1 tr1 tr2 evs.
         run 1 [Read_event 100, Read_event 101] (Some leaving_first) [] = Inr (Some l1, tr1) \<and>
         ast_framehook_list_destroy (Some l1) = Inr (0, None, tr2) \<and>
         list_all (rw_delivery 1) evs \<and>
         calls_on 1 (tr1 @ tr2) = evs @ destroy_calls 1 False)"
    using detach_defers_destruction
      [where l = leaving_first and calls = "[Read_event 100, Read_event 101]" and x = 1
        and d = False and v = 1 and ?chan0.0 = None and y = 0 and ?l0.0 = leaving_first
        and frame = 0 and event = AST_FRAMEHOOK_EVENT_READ and hs = "[]" and k = 0 and num = 0
        and skip = "[]" and cb = leaving and ?fr0.0 = 0 and dat = "()" and dets = "[]"
        and z = 0 and dz = False and tr = "[]" and hs' = "[]" and tr' = "[]" and p = 0
        and fr = 0 and p' = 0 and chan' = None and res = 0]
    by (elim conjE)
  with ok budget inside(5) have life: "\<exists>l1 tr1 tr2 evs.
      run 1 [Read_event 100, Read_event 101] (Some leaving_first) [] = Inr (Some l1, tr1) \<and>
      ast_framehook_list_destroy (Some l1) = Inr (0, None, tr2) \<and>
      list_all (rw_delivery 1) evs \<and>
      calls_on 1 (tr1 @ tr2) = evs @ destroy_calls 1 False"
    by (simp only: simp_thms)
  from det dist fl ev before at inside pass after ok run life show ?thesis
    by (simp only: simp_thms)
qed

text \<open>
  The claim as it stands says that the DETACHED event comes with the next dispatch or
  with teardown. At the list \<open>leaving_substituting_first\<close>, hook 1 detaches itself
  during a read event and replaces the frame: the second pass of the same dispatch
  destroys it. That pass finds hook 2 in the slot of \<open>skip\<close> that was set for hook 1,
  so hook 2 is not called at all.
\<close>

theorem self_detach_reaped_in_same_dispatch:
  "ast_framehook_list_read_event (Some leaving_substituting_first) 100 =
     Inr (200,
          Some (leaving_substituting_first\<lparr>list_fh := [entry pass_through 2]\<rparr>),
          [Event_cb 1 AST_FRAMEHOOK_EVENT_READ 100,
           Event_cb 1 AST_FRAMEHOOK_EVENT_DETACHED 0, Free_hook 1], 2)"
  by (simp add: ast_framehook_list_read_event_def framehook_list_push_event_def
      framehook_list_loop.simps framehook_list_traverse.simps framehook_detach_and_destroy_def
      leaving_substituting_first_def entry_def hook_of_def pass_through_def
      leaving_substituting_def detach_calls_def)

text \<open>
  A hook that detaches itself from inside its callback: \<open>leaving\<close> with id 1, followed
  by an observing hook. The read event in which it detaches itself runs to its end;
  the hook stays in the list, flagged. The next read event destroys it and delivers the
  frame to the other hook only.
\<close>

lemma self_detach_is_reaped_by_next_dispatch:
  "ast_framehook_list_read_event
     (Some \<lparr>count = 2, id_count = 2, list_fh = [entry leaving 1, entry pass_through 2]\<rparr>) 100 =
     Inr (100,
          Some \<lparr>count = 2, id_count = 2,
                list_fh = [(entry leaving 1)\<lparr>detach_and_destroy_me := True\<rparr>,
                           entry pass_through 2]\<rparr>,
          [Event_cb 1 AST_FRAMEHOOK_EVENT_READ 100, Event_cb 2 AST_FRAMEHOOK_EVENT_READ 100], 1) \<and>
   ast_framehook_list_read_event
     (Some \<lparr>count = 2, id_count = 2,
            list_fh = [(entry leaving 1)\<lparr>detach_and_destroy_me := True\<rparr>,
                       entry pass_through 2]\<rparr>) 101 =
     Inr (101,
          Some \<lparr>count = 2, id_count = 2, list_fh = [entry pass_through 2]\<rparr>,
          [Event_cb 1 AST_FRAMEHOOK_EVENT_DETACHED 0, Free_hook 1,
           Event_cb 2 AST_FRAMEHOOK_EVENT_READ 101], 1)"
  by (simp add: ast_framehook_list_read_event_def framehook_list_push_event_def
      framehook_list_loop.simps framehook_list_traverse.simps framehook_detach_and_destroy_def
      entry_def hook_of_def pass_through_def leaving_def detach_calls_def)

section \<open>Properties of the digit queue\<close>

subsection \<open>Taking digits from the queue\<close>

lemma queue_ok_sint:
  "queue_ok s \<longleftrightarrow>
     0 \<le> sint (current_digits s) \<and> sint (current_digits s) \<le> 128 \<and> length (digits s) = 129"
  by (simp add: queue_ok_def word_sle_eq MAX_DTMF_DIGITS_def)

lemma length_queue: "queue_ok s \<Longrightarrow> length (queue s) = nat (sint (current_digits s))"
  by (auto simp: queue_ok_sint queue_def min_def)

lemma getdigits_from_takes:
  assumes ok: "queue_ok s" and max0: "0 \<le>s max0"
    and n: "n = min (nat (sint max0)) (length (queue s))"
    and cap: "n < length buf"
  shows "\<exists>r buf' s'. getdigits_from s buf max0 = Inr (r, buf', s') \<and>
           sint r = int n \<and>
           length buf' = length buf \<and> take n buf' = take n (queue s) \<and> buf' ! n = 0 \<and>
           drop (Suc n) buf' = drop (Suc n) buf \<and>
           queue s' = drop n (queue s) \<and> queue_ok s' \<and>
           sint (current_digits s') = sint (current_digits s) - int n \<and>
           lost_digits s' = lost_digits s \<and> detected_digits s' = detected_digits s"
proof -
  let ?cd = "current_digits s"
  let ?max1 = "if ?cd <s max0 then ?cd else max0"
  have cd: "0 \<le> sint ?cd" "sint ?cd \<le> 128" "length (digits s) = 129"
    using ok by (simp_all add: queue_ok_sint)
  have m0: "0 \<le> sint max0"
    using max0 by (simp add: word_sle_eq)
  have lq: "length (queue s) = nat (sint ?cd)"
    using ok by (rule length_queue)
  have max1: "sint ?max1 = min (sint max0) (sint ?cd)"
    by (simp add: word_sless_alt)
  then have n1: "nat (sint ?max1) = n"
    using n lq cd(1) m0 by (auto simp: min_def)
  have n_le: "int n \<le> sint ?cd" and n_int: "sint ?max1 = int n"
    using n1 max1 cd(1) m0 by auto
  have n_nat: "n \<le> nat (sint ?cd)"
    using n_le by linarith
  have sub: "sint (?cd - ?max1) = sint ?cd - int n"
    using sint_sub_small [of ?max1 ?cd] max1 m0 cd(1) n_int by simp
  then have m: "nat (sint (?cd - ?max1)) = nat (sint ?cd) - n"
    by simp
  have pos: "(0 <s ?max1) = (0 < n)"
    using word_sless_alt [of 0 ?max1] n_int by simp
  have neg: "\<not> ?max1 <s 0"
    using word_sless_alt [of ?max1 0] n_int by simp
  show ?thesis
  proof (cases "0 <s ?max1")
    case True
    then have npos: "0 < n"
      using pos by simp
    let ?buf' = "(take n (digits s) @ drop n buf)[n := 0]"
    let ?s' = "s\<lparr>digits := take (nat (sint ?cd) - n) (drop n (digits s)) @ drop (nat (sint ?cd) - n) (digits s),
                  current_digits := ?cd - ?max1\<rparr>"
    have bounds: "\<not> (length buf \<le> n \<or> length (digits s) < n + (nat (sint ?cd) - n))"
      using cap cd n_le by simp
    have r: "getdigits_from s buf max0 = Inr (?max1, ?buf', ?s')"
      using True bounds unfolding getdigits_from_def Let_def n1 m by simp
    have nd: "n \<le> length (digits s)"
      using cd n_le by simp
    have "take n ?buf' = take n (digits s)"
      using nd by simp
    moreover have "take n (queue s) = take n (digits s)"
      using n_nat by (simp add: queue_def min_absorb1)
    ultimately have t: "take n ?buf' = take n (queue s)"
      by simp
    have len: "length ?buf' = length buf"
      using nd cap by simp
    have z: "?buf' ! n = 0"
      using nd cap by simp
    have d: "drop (Suc n) ?buf' = drop (Suc n) buf"
      using nd cap by (simp add: drop_update_cancel)
    have q: "queue ?s' = drop n (queue s)"
      using cd n_nat sub by (simp add: queue_def drop_take nat_diff_distrib)
    have ok': "queue_ok ?s'"
      using cd n_le sub by (simp add: queue_ok_sint)
    from r n_int len t z d q ok' sub show ?thesis
      by simp
  next
    case False
    then have nz: "n = 0"
      using pos by simp
    have r: "getdigits_from s buf max0 = Inr (?max1, buf[0 := 0], s)"
      using False neg cap nz n1 unfolding getdigits_from_def Let_def by simp
    have "drop (Suc 0) (buf[0 := 0]) = drop (Suc 0) buf"
      by (simp add: drop_update_cancel)
    with r nz n_int cap ok show ?thesis
      by simp
  qed
qed

lemma getdigits_from_empty:
  assumes "current_digits s = 0" and "0 \<le>s max0" and "buf \<noteq> []"
  shows "getdigits_from s buf max0 = Inr (0, buf[0 := 0], s)"
proof -
  have "sint max0 = 0 \<longleftrightarrow> max0 = 0"
    by (rule signed_eq_0_iff)
  then have "(0 :: cint) <s max0 \<or> max0 = 0"
    using assms(2) by (auto simp: word_sle_eq word_sless_alt)
  then show ?thesis
    using assms(1,3) by (auto simp: getdigits_from_def)
qed

subsection \<open>Queueing a digit\<close>

lemma store_digit_appends:
  assumes "queue_ok s" and "current_digits s <s limit" and "limit \<le>s MAX_DTMF_DIGITS"
  shows "\<exists>s'. store_digit limit hit s = Inr s' \<and> queue s' = queue s @ [ucast hit] \<and>
           queue_ok s' \<and> lost_digits s' = lost_digits s \<and>
           sint (current_digits s') = sint (current_digits s) + 1"
proof -
  let ?cd = "current_digits s"
  let ?n = "nat (sint ?cd)"
  have cd: "0 \<le> sint ?cd" "sint ?cd < 128" "length (digits s) = 129"
    using assms by (simp_all add: queue_ok_sint word_sless_alt word_sle_eq MAX_DTMF_DIGITS_def)
  have inc: "sint (?cd + 1) = sint ?cd + 1"
    using sint_add1_small [of ?cd] cd(2) by simp
  let ?s' = "s\<lparr>digits := (digits s)[?n := ucast hit, Suc ?n := 0], current_digits := ?cd + 1\<rparr>"
  have "\<not> ?cd <s 0"
    using cd(1) by (simp add: word_sless_alt)
  moreover have "\<not> length (digits s) \<le> Suc ?n"
    using cd by simp
  ultimately have r: "store_digit limit hit s = Inr ?s'"
    using assms(2) by (simp add: store_digit_def)
  have n: "?n < length (digits s)" "nat (sint ?cd + 1) = Suc ?n"
    using cd by simp_all
  have "queue ?s' = take (Suc ?n) ((digits s)[?n := ucast hit, Suc ?n := 0])"
    by (simp add: queue_def inc n(2))
  also have "\<dots> = take ?n (digits s) @ [ucast hit]"
    using n(1) by (simp add: take_Suc_conv_app_nth)
  finally have q: "queue ?s' = queue s @ [ucast hit]"
    by (simp add: queue_def)
  have "queue_ok ?s'"
    using cd inc by (simp add: queue_ok_sint)
  with r q inc show ?thesis by simp
qed

subsection \<open>ast_dsp_getdigits on the detector in use\<close>

lemma ast_dsp_getdigits_takes:
  assumes ok: "td_ok mf dsp" and max0: "0 \<le>s max0"
    and n: "n = min (nat (sint max0)) (length (td_queue dsp))"
    and cap: "n < length buf"
  shows "\<exists>r buf' dsp'. ast_dsp_getdigits mf dsp buf max0 = Inr (r, buf', dsp') \<and>
           sint r = int n \<and>
           length buf' = length buf \<and> take n buf' = take n (td_queue dsp) \<and> buf' ! n = 0 \<and>
           drop (Suc n) buf' = drop (Suc n) buf \<and>
           td_queue dsp' = drop n (td_queue dsp) \<and> td_ok mf dsp'"
proof (cases "td dsp")
  case (Td_dtmf s)
  with ok have mode: "digitmode dsp AND mf = 0" and qok: "queue_ok s"
    by (simp_all add: td_ok_def)
  have n': "n = min (nat (sint max0)) (length (queue s))"
    using n Td_dtmf by (simp add: td_queue_def)
  from getdigits_from_takes [OF qok max0 n' cap] obtain r buf' s' where
    "getdigits_from s buf max0 = Inr (r, buf', s')" "sint r = int n"
    "length buf' = length buf" "take n buf' = take n (queue s)" "buf' ! n = 0"
    "drop (Suc n) buf' = drop (Suc n) buf" "queue s' = drop n (queue s)" "queue_ok s'"
    by blast
  then show ?thesis
    using Td_dtmf mode by (simp add: ast_dsp_getdigits_def td_queue_def td_ok_def)
next
  case (Td_mf s)
  with ok have mode: "digitmode dsp AND mf \<noteq> 0" and qok: "queue_ok s"
    by (simp_all add: td_ok_def)
  have n': "n = min (nat (sint max0)) (length (queue s))"
    using n Td_mf by (simp add: td_queue_def)
  from getdigits_from_takes [OF qok max0 n' cap] obtain r buf' s' where
    "getdigits_from s buf max0 = Inr (r, buf', s')" "sint r = int n"
    "length buf' = length buf" "take n buf' = take n (queue s)" "buf' ! n = 0"
    "drop (Suc n) buf' = drop (Suc n) buf" "queue s' = drop n (queue s)" "queue_ok s'"
    by blast
  then show ?thesis
    using Td_mf mode by (simp add: ast_dsp_getdigits_def td_queue_def td_ok_def)
qed

lemma queue_empty_iff: "queue_ok s \<Longrightarrow> queue s = [] \<longleftrightarrow> current_digits s = 0"
proof -
  assume ok: "queue_ok s"
  then have "length (queue s) = nat (sint (current_digits s))"
    by (rule length_queue)
  moreover have "0 \<le> sint (current_digits s)"
    using ok by (simp add: queue_ok_sint)
  ultimately have "queue s = [] \<longleftrightarrow> sint (current_digits s) = 0"
    by auto
  then show ?thesis
    by (simp add: signed_eq_0_iff)
qed

lemma ast_dsp_getdigits_empty:
  assumes ok: "td_ok mf dsp" and e: "td_queue dsp = []" and max0: "0 \<le>s max0" and buf: "buf \<noteq> []"
  shows "ast_dsp_getdigits mf dsp buf max0 = Inr (0, buf[0 := 0], dsp)"
proof (cases "td dsp")
  case (Td_dtmf s)
  with ok e have "digitmode dsp AND mf = 0" "current_digits s = 0"
    by (simp_all add: td_ok_def td_queue_def queue_empty_iff)
  then show ?thesis
    using Td_dtmf getdigits_from_empty [of s max0 buf] max0 buf
    by (simp add: ast_dsp_getdigits_def)
next
  case (Td_mf s)
  with ok e have "digitmode dsp AND mf \<noteq> 0" "current_digits s = 0"
    by (simp_all add: td_ok_def td_queue_def queue_empty_iff)
  then show ?thesis
    using Td_mf getdigits_from_empty [of s max0 buf] max0 buf
    by (simp add: ast_dsp_getdigits_def)
qed

subsection \<open>A queue at its limit\<close>

lemma store_digit_full:
  "\<not> current_digits s <s limit \<Longrightarrow> store_digit limit hit s = Inr (s\<lparr>lost_digits := lost_digits s + 1\<rparr>)"
  by (simp add: store_digit_def)

lemma queue_step_refl: "queue_ok s \<Longrightarrow> queue_step limit s s"
  by (simp add: queue_step_def)

lemma queue_step_trans:
  assumes "queue_step limit s s1" and "queue_step limit s1 s2"
  shows "queue_step limit s s2"
proof (cases "current_digits s <s limit")
  case True
  with assms(2) show ?thesis by (simp add: queue_step_def)
next
  case False
  with assms(1) have a: "digits s1 = digits s" "current_digits s1 = current_digits s"
      "lost_digits s1 - lost_digits s = detected_digits s1 - detected_digits s"
    by (simp_all add: queue_step_def)
  with False assms(2) have b: "queue_ok s2" "digits s2 = digits s1"
      "current_digits s2 = current_digits s1"
      "lost_digits s2 - lost_digits s1 = detected_digits s2 - detected_digits s1"
    by (simp_all add: queue_step_def)
  have "lost_digits s2 - lost_digits s = (lost_digits s2 - lost_digits s1) + (lost_digits s1 - lost_digits s)"
    by simp
  also have "\<dots> = detected_digits s2 - detected_digits s"
    using a(3) b(4) by simp
  finally show ?thesis
    using a b by (simp add: queue_step_def)
qed

lemma store_digit_step:
  assumes "queue_ok s" and "limit \<le>s MAX_DTMF_DIGITS"
  shows "\<exists>s'. store_digit limit hit (s\<lparr>detected_digits := detected_digits s + 1\<rparr>) = Inr s' \<and>
           queue_step limit s s' \<and> hit2 s' = hit2 s \<and> hit3 s' = hit3 s \<and>
           fax_hits s' = fax_hits s \<and> mf_detect_state_t.more s' = mf_detect_state_t.more s"
proof (cases "current_digits s <s limit")
  case True
  let ?s = "s\<lparr>detected_digits := detected_digits s + 1\<rparr>"
  have "queue_ok ?s"
    using assms(1) by (simp add: queue_ok_def)
  moreover have "current_digits ?s <s limit"
    using True by simp
  ultimately obtain s' where s': "store_digit limit hit ?s = Inr s'" "queue_ok s'"
    using store_digit_appends [of ?s limit hit] assms(2) by blast
  then have "hit2 s' = hit2 s \<and> hit3 s' = hit3 s \<and> fax_hits s' = fax_hits s \<and>
      mf_detect_state_t.more s' = mf_detect_state_t.more s"
    by (auto simp: store_digit_def split: if_splits)
  with s' True show ?thesis
    by (simp add: queue_step_def)
next
  case False
  then show ?thesis
    using assms(1) by (simp add: store_digit_full queue_step_def queue_ok_def)
qed

lemma store_digit_digit_hits:
  "store_digit limit hit s = Inr s' \<Longrightarrow> digit_hits s' = digit_hits s"
  by (auto simp: store_digit_def split: if_splits)

subsection \<open>Blocks of the DTMF detector\<close>

lemma best_of_lt: "0 < n \<Longrightarrow> best_of gt n < n"
proof -
  have "b < n \<Longrightarrow> \<forall>i \<in> set xs. i < n \<Longrightarrow>
      fold (\<lambda>i best. if gt i best then i else best) xs b < n" for xs b
    by (induction xs arbitrary: b) auto
  then show "0 < n \<Longrightarrow> best_of gt n < n"
    by (simp add: best_of_def)
qed

lemma dtmf_digit_step_ok:
  assumes "dtmf_ok s"
  shows "\<exists>hit s'. dtmf_digit_step t s = Inr (hit, s') \<and> dtmf_ok s' \<and>
           queue_step MAX_DTMF_DIGITS s s' \<and> fax_hits s' = fax_hits s"
proof -
  let ?r = "best_of (row_gt t) 4" and ?c = "best_of (col_gt t) 4"
  let ?idx = "push_bit 2 ?r + ?c"
  let ?hit = "ucast (dtmf_positions ! ?idx) :: cint"
  have "?r < 4" "?c < 4"
    by (simp_all add: best_of_lt)
  then have idx: "?idx < 16"
    by (simp add: push_bit_eq_mult)
  have ok: "queue_ok s" "length (digit_hits s) = 16"
    using assms by (simp_all add: dtmf_ok_def)
  let ?s = "s\<lparr>mhit := ?hit, digit_hits := (digit_hits s)[?idx := digit_hits s ! ?idx + 1]\<rparr>"
  have "queue_ok ?s"
    using ok(1) by (simp add: queue_ok_def)
  then obtain s' where s': "store_digit MAX_DTMF_DIGITS ?hit (?s\<lparr>detected_digits := detected_digits ?s + 1\<rparr>) = Inr s'"
    "queue_step MAX_DTMF_DIGITS ?s s'" "fax_hits s' = fax_hits ?s"
    "mf_detect_state_t.more s' = mf_detect_state_t.more ?s"
    using store_digit_step [of ?s MAX_DTMF_DIGITS ?hit] by (auto simp: word_sle_eq)
  have eq: "?s\<lparr>detected_digits := detected_digits ?s + 1\<rparr> =
      s\<lparr>mhit := ?hit, detected_digits := detected_digits s + 1,
        digit_hits := (digit_hits s)[?idx := digit_hits s ! ?idx + 1]\<rparr>"
    by simp
  have a: "dtmf_ok s'"
    using s'(2) ok(2) store_digit_digit_hits [OF s'(1)] by (simp add: dtmf_ok_def queue_step_def)
  have b: "queue_step MAX_DTMF_DIGITS s s'"
    using s'(2) by (simp add: queue_step_def)
  have c: "queue_step MAX_DTMF_DIGITS s s"
    using ok(1) by (rule queue_step_refl)
  show ?thesis
  proof (cases "?hit = hit3 s \<and> hit3 s \<noteq> hit2 s")
    case True
    then show ?thesis
      unfolding dtmf_digit_step_def Let_def
      using idx ok(2) assms s'(1) [unfolded eq] a b s'(3) c
      by auto
  next
    case False
    then show ?thesis
      unfolding dtmf_digit_step_def Let_def
      using assms c by auto
  qed
qed

lemma dtmf_fax_step_ok:
  assumes "dtmf_ok s"
  shows "\<exists>hit' s'. dtmf_fax_step t hit s = Inr (hit', s') \<and> dtmf_ok s' \<and>
           queue_step MAX_DTMF_DIGITS s s'"
proof -
  have ok: "queue_ok s" "length (digit_hits s) = 16"
    using assms by (simp_all add: dtmf_ok_def)
  let ?s = "s\<lparr>mhit := 102\<rparr>"
  have "queue_ok ?s"
    using ok(1) by (simp add: queue_ok_def)
  then obtain s' where s': "store_digit MAX_DTMF_DIGITS 102 (?s\<lparr>detected_digits := detected_digits ?s + 1\<rparr>) = Inr s'"
    "queue_step MAX_DTMF_DIGITS ?s s'"
    using store_digit_step [of ?s MAX_DTMF_DIGITS 102] by (auto simp: word_sle_eq)
  have eq: "?s\<lparr>detected_digits := detected_digits ?s + 1\<rparr> =
      s\<lparr>mhit := 102, detected_digits := detected_digits s + 1\<rparr>"
    by simp
  have a: "dtmf_ok (s'\<lparr>fax_hits := 0\<rparr>)"
    using s'(2) ok(2) store_digit_digit_hits [OF s'(1)] by (simp add: dtmf_ok_def queue_step_def queue_ok_def)
  have b: "queue_step MAX_DTMF_DIGITS s (s'\<lparr>fax_hits := 0\<rparr>)"
    using s'(2) by (simp add: queue_step_def queue_ok_def)
  have c: "queue_step MAX_DTMF_DIGITS s (s\<lparr>fax_hits := f\<rparr>)" "dtmf_ok (s\<lparr>fax_hits := f\<rparr>)" for f
    using ok by (simp_all add: queue_step_def queue_ok_def dtmf_ok_def)
  show ?thesis
    unfolding dtmf_fax_step_def
    using s'(1) [unfolded eq] a b c assms queue_step_refl [OF ok(1)]
    by simp
qed

lemma dtmf_detect_block_ok:
  assumes "dtmf_ok s"
  shows "\<exists>hit s'. dtmf_detect_block t s = Inr (hit, s') \<and> dtmf_ok s' \<and>
           queue_step MAX_DTMF_DIGITS s s'"
proof -
  from dtmf_digit_step_ok [OF assms] obtain h1 s1 where
    1: "dtmf_digit_step t s = Inr (h1, s1)" "dtmf_ok s1" "queue_step MAX_DTMF_DIGITS s s1"
    by blast
  from dtmf_fax_step_ok [OF 1(2)] obtain h2 s2 where
    2: "dtmf_fax_step t h1 s1 = Inr (h2, s2)" "dtmf_ok s2" "queue_step MAX_DTMF_DIGITS s1 s2"
    by blast
  let ?s' = "s2\<lparr>hit1 := hit2 s2, hit2 := hit3 s2, hit3 := h2, current_sample := 0\<rparr>"
  have "queue_step MAX_DTMF_DIGITS s s2"
    using 1(3) 2(3) by (rule queue_step_trans)
  then have "queue_step MAX_DTMF_DIGITS s ?s'"
    by (simp add: queue_step_def queue_ok_def)
  moreover have "dtmf_ok ?s'"
    using 2(2) by (simp add: dtmf_ok_def queue_ok_def)
  ultimately show ?thesis
    using 1(1) 2(1) by (simp add: dtmf_detect_block_def)
qed

lemma dtmf_detect_blocks_ok:
  assumes "dtmf_ok s"
  shows "\<exists>s'. dtmf_detect_blocks ts s = Inr s' \<and> dtmf_ok s' \<and> queue_step MAX_DTMF_DIGITS s s'"
  using assms
proof (induction ts arbitrary: s)
  case Nil
  then show ?case
    by (simp add: queue_step_refl dtmf_ok_def)
next
  case (Cons t ts)
  from dtmf_detect_block_ok [OF Cons.prems] obtain hit s1 where
    1: "dtmf_detect_block t s = Inr (hit, s1)" "dtmf_ok s1" "queue_step MAX_DTMF_DIGITS s s1"
    by blast
  from Cons.IH [OF 1(2)] obtain s' where
    2: "dtmf_detect_blocks ts s1 = Inr s'" "dtmf_ok s'" "queue_step MAX_DTMF_DIGITS s1 s'"
    by blast
  have "queue_step MAX_DTMF_DIGITS s s'"
    using 1(3) 2(3) by (rule queue_step_trans)
  with 1(1) 2(1,2) show ?case
    by simp
qed

subsection \<open>Blocks of the MF detector\<close>

lemma mf_limit: "MAX_DTMF_DIGITS - 2 \<le>s MAX_DTMF_DIGITS"
  by (simp add: MAX_DTMF_DIGITS_def word_sle_eq)

lemma mf_detect_block_ok:
  assumes "queue_ok s"
  shows "\<exists>hit s'. mf_detect_block t s = Inr (hit, s') \<and> queue_ok s' \<and>
           queue_step (MAX_DTMF_DIGITS - 2) s s'"
proof -
  have upd: "queue_step l s (s'\<lparr>hit1 := a, hit2 := b, hit3 := c, current_sample := 0\<rparr>)"
    if "queue_step l s s'" for l a b c and s' :: mf_detect_state_t
    using that by (simp add: queue_step_def queue_ok_def)
  have st: "\<exists>s'. store_digit (MAX_DTMF_DIGITS - 2) hit (s\<lparr>mhit := hit, detected_digits := detected_digits s + 1\<rparr>) = Inr s' \<and>
      queue_step (MAX_DTMF_DIGITS - 2) s s'" for hit
  proof -
    let ?s = "s\<lparr>mhit := hit\<rparr>"
    have "queue_ok ?s"
      using assms by (simp add: queue_ok_def)
    then obtain s' where s': "store_digit (MAX_DTMF_DIGITS - 2) hit (?s\<lparr>detected_digits := detected_digits ?s + 1\<rparr>) = Inr s'"
      "queue_step (MAX_DTMF_DIGITS - 2) ?s s'"
      using store_digit_step [OF _ mf_limit, of ?s hit] by blast
    have "queue_step (MAX_DTMF_DIGITS - 2) s s'"
      using s'(2) by (simp add: queue_step_def)
    with s'(1) show ?thesis
      by simp
  qed
  define good where "good \<longleftrightarrow>
      (\<forall>i \<in> set [0..<6]. i = best_of (tone_gt t) 6 \<or>
           i = second_best (tone_gt t) (best_of (tone_gt t) 6) \<or>
           (\<not> relative_fails t (best_of (tone_gt t) 6) i \<and>
            \<not> relative_fails t (second_best (tone_gt t) (best_of (tone_gt t) 6)) i)) \<and>
      \<not> harmonic_fails t (best_of (tone_gt t) 6) (best_of (tone_gt t) 6) \<and>
      \<not> harmonic_fails t (best_of (tone_gt t) 6) (second_best (tone_gt t) (best_of (tone_gt t) 6))"
  define hit :: cint where "hit =
      (if good then ucast (mf_hit ! best_of (tone_gt t) 6 !
                            second_best (tone_gt t) (best_of (tone_gt t) 6)) else 0)"
  define r where "r =
      (if good \<and> hit = hit3 s \<and> hit3 s \<noteq> hit2 s
       then store_digit (MAX_DTMF_DIGITS - 2) hit
              (s\<lparr>mhit := hit, detected_digits := detected_digits s + 1\<rparr>)
       else Inr s)"
  have block: "mf_detect_block t s =
      (case r of
         Inl e \<Rightarrow> Inl e
       | Inr s' \<Rightarrow>
           Inr (hit, s'\<lparr>hit1 := hit2 s', hit2 := hit3 s', hit3 := hit, current_sample := 0\<rparr>))"
    unfolding mf_detect_block_def Let_def r_def hit_def good_def by (rule refl)
  have "\<exists>s'. r = Inr s' \<and> queue_step (MAX_DTMF_DIGITS - 2) s s'"
  proof (cases "good \<and> hit = hit3 s \<and> hit3 s \<noteq> hit2 s")
    case True
    then have "r = store_digit (MAX_DTMF_DIGITS - 2) hit
        (s\<lparr>mhit := hit, detected_digits := detected_digits s + 1\<rparr>)"
      unfolding r_def by simp
    with st [of hit] show ?thesis
      by (simp only:)
  next
    case False
    then have "r = Inr s"
      unfolding r_def by auto
    with queue_step_refl [OF assms] show ?thesis
      by simp
  qed
  then obtain s' where s': "r = Inr s'" "queue_step (MAX_DTMF_DIGITS - 2) s s'"
    by blast
  have "queue_step (MAX_DTMF_DIGITS - 2) s
      (s'\<lparr>hit1 := hit2 s', hit2 := hit3 s', hit3 := hit, current_sample := 0\<rparr>)"
    using s'(2) by (rule upd)
  then show ?thesis
    unfolding block s'(1) by (simp add: queue_step_def)
qed

lemma mf_detect_blocks_ok:
  assumes "queue_ok s"
  shows "\<exists>s'. mf_detect_blocks ts s = Inr s' \<and> queue_ok s' \<and>
           queue_step (MAX_DTMF_DIGITS - 2) s s'"
  using assms
proof (induction ts arbitrary: s)
  case Nil
  then show ?case
    by (simp add: queue_step_refl)
next
  case (Cons t ts)
  from mf_detect_block_ok [OF Cons.prems] obtain hit s1 where
    1: "mf_detect_block t s = Inr (hit, s1)" "queue_ok s1" "queue_step (MAX_DTMF_DIGITS - 2) s s1"
    by blast
  from Cons.IH [OF 1(2)] obtain s' where
    2: "mf_detect_blocks ts s1 = Inr s'" "queue_ok s'" "queue_step (MAX_DTMF_DIGITS - 2) s1 s'"
    by blast
  have "queue_step (MAX_DTMF_DIGITS - 2) s s'"
    using 1(3) 2(3) by (rule queue_step_trans)
  with 1(1) 2(1,2) show ?case
    by simp
qed

lemma init_ok:
  "length (digits s) = 129 \<Longrightarrow> length (digit_hits s) = 16 \<Longrightarrow> dtmf_ok (ast_dtmf_detect_init s)"
  "length (digits m) = 129 \<Longrightarrow> queue_ok (ast_mf_detect_init m)"
  "queue (ast_dtmf_detect_init s) = []" "queue (ast_mf_detect_init m) = []"
  by (simp_all add: dtmf_ok_def queue_ok_sint queue_def ast_dtmf_detect_init_def
      ast_mf_detect_init_def)

lemma queue_at_limit:
  assumes "queue_ok s"
  shows "length (queue s) = 128 \<Longrightarrow> \<not> current_digits s <s MAX_DTMF_DIGITS"
    and "126 \<le> length (queue s) \<Longrightarrow> \<not> current_digits s <s MAX_DTMF_DIGITS - 2"
  using assms length_queue [OF assms]
  by (simp_all add: queue_ok_sint word_sless_alt MAX_DTMF_DIGITS_def)

lemma queue_step_full:
  assumes "queue_step limit s s'" and "\<not> current_digits s <s limit"
  shows "digits s' = digits s" and "queue s' = queue s"
    and "lost_digits s' - lost_digits s = detected_digits s' - detected_digits s"
  using assms by (simp_all add: queue_step_def queue_def)

lemma queue_ok_length: "queue_ok s \<Longrightarrow> length (queue s) \<le> 128"
  by (simp add: length_queue) (simp add: queue_ok_sint nat_le_iff)

subsection \<open>The claims about the digit queue\<close>

text \<open>
  Claim C5. Let the detector in use be well formed, \<open>max\<close> be at least 0, \<open>n\<close> be the
  smaller of \<open>max\<close> and the number of queued digits, and the buffer of the caller have
  room for \<open>n + 1\<close> characters. Then \<open>ast_dsp_getdigits\<close> returns \<open>n\<close>; the buffer holds
  the first \<open>n\<close> queued digits in their order, then NUL, and is unchanged behind it; the
  queue is left with exactly the digits after the first \<open>n\<close>, in their order. If the
  call has taken the whole queue, any further call returns 0 and the empty string and
  changes nothing. The order of the queue is the order of detection: a digit is queued
  behind the digits that are there.
\<close>

theorem ast_dsp_getdigits_fifo:
  assumes "td_ok mf dsp" and "0 \<le>s max0"
    and "n = min (nat (sint max0)) (length (td_queue dsp))"
    and "n < length buf"
  shows "\<exists>r buf' dsp'.
     ast_dsp_getdigits mf dsp buf max0 = Inr (r, buf', dsp') \<and>
     sint r = int n \<and>
     length buf' = length buf \<and> take n buf' = take n (td_queue dsp) \<and> buf' ! n = 0 \<and>
     drop (Suc n) buf' = drop (Suc n) buf \<and>
     td_queue dsp' = drop n (td_queue dsp) \<and> td_ok mf dsp' \<and>
     (length (td_queue dsp) \<le> nat (sint max0) \<and> 0 \<le>s max1 \<and> buf1 \<noteq> [] \<longrightarrow>
        ast_dsp_getdigits mf dsp' buf1 max1 = Inr (0, buf1[0 := 0], dsp')) \<and>
     (queue_ok s \<and> current_digits s <s limit \<and> limit \<le>s MAX_DTMF_DIGITS \<longrightarrow>
        (\<exists>s'. store_digit limit hit s = Inr s' \<and> queue s' = queue s @ [ucast hit]))"
proof -
  from ast_dsp_getdigits_takes [OF assms] obtain r buf' dsp' where
    r: "ast_dsp_getdigits mf dsp buf max0 = Inr (r, buf', dsp')" "sint r = int n"
      "length buf' = length buf" "take n buf' = take n (td_queue dsp)" "buf' ! n = 0"
      "drop (Suc n) buf' = drop (Suc n) buf" "td_queue dsp' = drop n (td_queue dsp)"
      "td_ok mf dsp'"
    by blast
  have again: "ast_dsp_getdigits mf dsp' buf1 max1 = Inr (0, buf1[0 := 0], dsp')"
    if "length (td_queue dsp) \<le> nat (sint max0)" "0 \<le>s max1" "buf1 \<noteq> []"
  proof -
    have "td_queue dsp' = []"
      using r(7) that(1) assms(3) by simp
    with r(8) show ?thesis
      using that(2,3) by (rule ast_dsp_getdigits_empty)
  qed
  have behind: "\<exists>s'. store_digit limit hit s = Inr s' \<and> queue s' = queue s @ [ucast hit]"
    if "queue_ok s" "current_digits s <s limit" "limit \<le>s MAX_DTMF_DIGITS"
    using store_digit_appends [OF that, of hit] by blast
  from r again behind show ?thesis
    by blast
qed

theorem ast_dsp_getdigits_fifo_witness:
  "td_ok 1 two_queued \<and> (0 :: cint) \<le>s 2 \<and>
   (2 :: nat) = min (nat (sint (2 :: cint))) (length (td_queue two_queued)) \<and>
   (2 :: nat) < length [9, 9, 9 :: 8 word] \<and>
   length (td_queue two_queued) \<le> nat (sint (2 :: cint)) \<and> (0 :: cint) \<le>s 1 \<and>
   [7 :: 8 word] \<noteq> [] \<and>
   queue_ok full_mf \<and> current_digits full_mf <s MAX_DTMF_DIGITS \<and>
   MAX_DTMF_DIGITS \<le>s MAX_DTMF_DIGITS \<and>
   (\<exists>r buf' dsp'.
      ast_dsp_getdigits 1 two_queued [9, 9, 9] 2 = Inr (r, buf', dsp') \<and>
      sint r = 2 \<and> take 2 buf' = [49, 50] \<and> buf' ! 2 = 0 \<and> td_queue dsp' = [] \<and>
      ast_dsp_getdigits 1 dsp' [7] 1 = Inr (0, [0], dsp')) \<and>
   (\<exists>s'. store_digit MAX_DTMF_DIGITS 50 full_mf = Inr s' \<and>
      queue s' = replicate 126 49 @ [50])"
proof -
  have q: "td_queue two_queued = [49, 50]"
    by (simp add: td_queue_def two_queued_def queue_def)
  have ok: "td_ok 1 two_queued"
    by (simp add: td_ok_def two_queued_def queue_ok_sint)
  have le: "(0 :: cint) \<le>s 2" "(0 :: cint) \<le>s 1"
    by (simp_all add: word_sle_eq)
  have n: "(2 :: nat) = min (nat (sint (2 :: cint))) (length (td_queue two_queued))"
    by (simp add: q)
  have cap: "(2 :: nat) < length [9, 9, 9 :: 8 word]"
    by simp
  have all: "length (td_queue two_queued) \<le> nat (sint (2 :: cint))"
    by (simp add: q)
  have mf: "queue_ok full_mf" "current_digits full_mf <s MAX_DTMF_DIGITS"
    "MAX_DTMF_DIGITS \<le>s MAX_DTMF_DIGITS" "queue full_mf = replicate 126 49"
    by (simp_all add: queue_ok_sint full_mf_def word_sless_alt MAX_DTMF_DIGITS_def queue_def)
  from ok le n cap all mf show ?thesis
    using ast_dsp_getdigits_fifo [OF ok le(1) n cap, of 1 "[7]" full_mf MAX_DTMF_DIGITS 50]
    by (auto simp: q)
qed

text \<open>
  Claim C6. From a well-formed state, any run of DTMF blocks and any run of MF blocks
  returns without a fault in a well-formed state, whose queue has at most 128
  characters. If the queue has reached the limit of the detector (128 for DTMF,
  \<open>MAX_DTMF_DIGITS - 2 = 126\<close> for MF), the statement that queues a digit only
  increments \<open>lost_digits\<close>; over the run the array and the queue stay as they are, and
  \<open>lost_digits\<close> advances by the number of digits confirmed (the advance of
  \<open>detected_digits\<close>).
\<close>

theorem digit_queue_bounded:
  assumes "dtmf_ok s" and "queue_ok m"
  shows "\<exists>s' m'.
     dtmf_detect_blocks ts s = Inr s' \<and> mf_detect_blocks us m = Inr m' \<and>
     dtmf_ok s' \<and> queue_ok m' \<and> length (queue s') \<le> 128 \<and> length (queue m') \<le> 128 \<and>
     (length (queue s) = 128 \<longrightarrow>
        store_digit MAX_DTMF_DIGITS hit s = Inr (s\<lparr>lost_digits := lost_digits s + 1\<rparr>) \<and>
        digits s' = digits s \<and> queue s' = queue s \<and>
        lost_digits s' - lost_digits s = detected_digits s' - detected_digits s) \<and>
     (126 \<le> length (queue m) \<longrightarrow>
        store_digit (MAX_DTMF_DIGITS - 2) hit m = Inr (m\<lparr>lost_digits := lost_digits m + 1\<rparr>) \<and>
        digits m' = digits m \<and> queue m' = queue m \<and>
        lost_digits m' - lost_digits m = detected_digits m' - detected_digits m)"
proof -
  have qs: "queue_ok s"
    using assms(1) by (simp add: dtmf_ok_def)
  from dtmf_detect_blocks_ok [OF assms(1), of ts] obtain s' where
    s': "dtmf_detect_blocks ts s = Inr s'" "dtmf_ok s'" "queue_step MAX_DTMF_DIGITS s s'"
    by blast
  from mf_detect_blocks_ok [OF assms(2), of us] obtain m' where
    m': "mf_detect_blocks us m = Inr m'" "queue_ok m'" "queue_step (MAX_DTMF_DIGITS - 2) m m'"
    by blast
  have ls: "length (queue s') \<le> 128"
    using s'(2) by (simp add: dtmf_ok_def queue_ok_length)
  have lm: "length (queue m') \<le> 128"
    using m'(2) by (rule queue_ok_length)
  have fs: "store_digit MAX_DTMF_DIGITS hit s = Inr (s\<lparr>lost_digits := lost_digits s + 1\<rparr>) \<and>
        digits s' = digits s \<and> queue s' = queue s \<and>
        lost_digits s' - lost_digits s = detected_digits s' - detected_digits s"
    if "length (queue s) = 128"
    using queue_at_limit(1) [OF qs that] queue_step_full [OF s'(3)]
    by (simp add: store_digit_full)
  have fm: "store_digit (MAX_DTMF_DIGITS - 2) hit m = Inr (m\<lparr>lost_digits := lost_digits m + 1\<rparr>) \<and>
        digits m' = digits m \<and> queue m' = queue m \<and>
        lost_digits m' - lost_digits m = detected_digits m' - detected_digits m"
    if "126 \<le> length (queue m)"
    using queue_at_limit(2) [OF assms(2) that] queue_step_full [OF m'(3)]
    by (simp add: store_digit_full)
  from s'(1,2) m'(1,2) ls lm fs fm show ?thesis
    by blast
qed

theorem digit_queue_bounded_witness:
  "dtmf_ok full_dtmf \<and> queue_ok full_mf \<and>
   length (queue full_dtmf) = 128 \<and> 126 \<le> length (queue full_mf) \<and>
   (\<exists>s' m'.
      dtmf_detect_blocks [dtmf_block_1] full_dtmf = Inr s' \<and>
      mf_detect_blocks [mf_block_1] full_mf = Inr m' \<and>
      queue s' = replicate 128 49 \<and> detected_digits s' = 129 \<and> lost_digits s' = 1 \<and>
      queue m' = replicate 126 49 \<and> detected_digits m' = 127 \<and> lost_digits m' = 1)"
proof -
  have ok: "dtmf_ok full_dtmf" "queue_ok full_mf"
    by (simp_all add: dtmf_ok_def queue_ok_sint full_dtmf_def full_mf_def)
  have q: "queue full_dtmf = replicate 128 49" "queue full_mf = replicate 126 49"
    by (simp_all add: queue_def full_dtmf_def full_mf_def)
  have d: "case dtmf_detect_blocks [dtmf_block_1] full_dtmf of
      Inl e \<Rightarrow> False | Inr s' \<Rightarrow> detected_digits s' = 129"
    by code_simp
  have m: "case mf_detect_blocks [mf_block_1] full_mf of
      Inl e \<Rightarrow> False | Inr m' \<Rightarrow> detected_digits m' = 127"
    by code_simp
  have l: "lost_digits full_dtmf = 0" "detected_digits full_dtmf = 128"
    "lost_digits full_mf = 0" "detected_digits full_mf = 126"
    by (simp_all add: full_dtmf_def full_mf_def)
  from ok q d m l show ?thesis
    using digit_queue_bounded [OF ok, of "[dtmf_block_1]" "[mf_block_1]" 0] by auto
qed

section \<open>Properties of the busy detection\<close>

lemma sint_lower: "sint (lower v m) = min (sint v) (sint m)"
  by (simp add: lower_def word_sless_alt min_def)

lemma sint_higher: "sint (higher v m) = max (sint v) (sint m)"
  by (simp add: higher_def word_sless_alt max_def)

lemma Min_insert_min:
  fixes a m :: int
  assumes "finite S"
  shows "Min (insert (min a m) S) = min a (Min (insert m S))"
proof (cases "S = {}")
  case True
  then show ?thesis by simp
next
  case False
  with assms show ?thesis
    by (simp add: min.assoc)
qed

lemma Max_insert_max:
  fixes a m :: int
  assumes "finite S"
  shows "Max (insert (max a m) S) = max a (Max (insert m S))"
proof (cases "S = {}")
  case True
  then show ?thesis by simp
next
  case False
  with assms show ?thesis
    by (simp add: max.assoc)
qed

lemma slots_step:
  assumes "k < length hs" and "k < length hn"
  shows "slots hs hn k = insert (sint (hn ! k)) (insert (sint (hs ! k)) (slots hs hn (Suc k)))"
proof -
  have "drop k hs = hs ! k # drop (Suc k) hs" "drop k hn = hn ! k # drop (Suc k) hn"
    using assms by (simp_all add: Cons_nth_drop_Suc)
  then show ?thesis
    by (auto simp: slots_def)
qed

lemma busy_scan_result:
  assumes "length hs = 5" and "length hn = 5" and "0 \<le> sint x" and "sint x \<le> 5"
  shows "\<exists>mn' mx'. busy_scan hs hn x mn mx = Inr (mn', mx') \<and>
           sint mn' = Min (insert (sint mn) (slots hs hn (nat (sint x)))) \<and>
           sint mx' = Max (insert (sint mx) (slots hs hn (nat (sint x))))"
  using assms
proof (induction hs hn x mn mx rule: busy_scan.induct)
  case (1 hs hn x mn mx)
  let ?k = "nat (sint x)"
  show ?case
  proof (cases "x <s DSP_HISTORY")
    case True
    then have lt: "sint x < 5"
      by (simp add: word_sless_alt DSP_HISTORY_def)
    have nx: "sint (x + 1) = sint x + 1"
      using True by (rule next_index)
    have k: "?k < length hs" "?k < length hn" "nat (sint (x + 1)) = Suc ?k"
      using lt "1.prems" nx by simp_all
    have inb: "\<not> (x <s 0 \<or> length hs \<le> ?k \<or> length hn \<le> ?k)"
      using k "1.prems"(3) by (simp add: word_sless_alt)
    let ?mn = "lower (hn ! ?k) (lower (hs ! ?k) mn)"
    let ?mx = "higher (hn ! ?k) (higher (hs ! ?k) mx)"
    from "1.IH" [OF True inb "1.prems"(1,2)] nx lt "1.prems"(3)
    obtain mn' mx' where r: "busy_scan hs hn (x + 1) ?mn ?mx = Inr (mn', mx')"
      "sint mn' = Min (insert (sint ?mn) (slots hs hn (Suc ?k)))"
      "sint mx' = Max (insert (sint ?mx) (slots hs hn (Suc ?k)))"
      unfolding k(3) by auto
    have fin: "finite (slots hs hn (Suc ?k))"
      by (simp add: slots_def)
    have eq: "insert (sint m) (slots hs hn ?k) =
        insert (sint (hn ! ?k)) (insert (sint (hs ! ?k)) (insert (sint m) (slots hs hn (Suc ?k))))" for m :: cint
      unfolding slots_step [OF k(1,2)] by auto
    have "sint mn' = Min (insert (sint mn) (slots hs hn ?k))"
      unfolding r(2) eq sint_lower using fin by (simp add: Min_insert_min)
    moreover have "sint mx' = Max (insert (sint mx) (slots hs hn ?k))"
      unfolding r(3) eq sint_higher using fin by (simp add: Max_insert_max)
    moreover have "busy_scan hs hn x mn mx = Inr (mn', mx')"
      using True inb r(1) by (subst busy_scan.simps) simp
    ultimately show ?thesis
      by simp
  next
    case False
    then have "sint x = 5"
      using "1.prems"(4) by (simp add: word_sless_alt DSP_HISTORY_def)
    then have "slots hs hn ?k = {}"
      using "1.prems"(1,2) by (simp add: slots_def)
    moreover have "busy_scan hs hn x mn mx = Inr (mn, mx)"
      using False by (subst busy_scan.simps) simp
    ultimately show ?thesis
      by simp
  qed
qed

lemma history_start:
  assumes "history_ok dsp"
  shows "sint (DSP_HISTORY - busycount dsp) = 5 - sint (busycount dsp)"
    and "nat (sint (DSP_HISTORY - busycount dsp)) = 5 - nat (sint (busycount dsp))"
    and "1 \<le> sint (busycount dsp)" and "sint (busycount dsp) \<le> 5"
proof -
  show bc: "1 \<le> sint (busycount dsp)" "sint (busycount dsp) \<le> 5"
    using assms by (simp_all add: history_ok_def word_sle_eq DSP_HISTORY_def)
  then show d: "sint (DSP_HISTORY - busycount dsp) = 5 - sint (busycount dsp)"
    using sint_diff_small [of DSP_HISTORY "busycount dsp"] by (simp add: DSP_HISTORY_def)
  show "nat (sint (DSP_HISTORY - busycount dsp)) = 5 - nat (sint (busycount dsp))"
    unfolding d using bc by simp
qed

lemma busy_window_slots:
  assumes "history_ok dsp"
  shows "busy_window dsp =
      slots (historicsilence dsp) (historicnoise dsp) (nat (sint (DSP_HISTORY - busycount dsp)))"
  unfolding history_start(2) [OF assms] by (simp add: busy_window_def slots_def)

lemma busy_window_nonempty:
  assumes "history_ok dsp"
  shows "finite (busy_window dsp)" and "busy_window dsp \<noteq> {}"
proof -
  show "finite (busy_window dsp)"
    by (simp add: busy_window_def)
  have "5 - nat (sint (busycount dsp)) < length (historicsilence dsp)"
    using assms history_start(3) [OF assms] by (simp add: history_ok_def)
  then show "busy_window dsp \<noteq> {}"
    by (simp add: busy_window_def)
qed

lemma busy_test:
  fixes mn mx :: cint and lo hi :: int
  assumes "sint mn = min 9999 lo" and "sint mx = max 0 hi" and "lo \<le> hi"
  shows "(mx - mn <s BUSY_THRESHOLD \<and> mx <s BUSY_MAX \<and> BUSY_MIN <s mn) \<longleftrightarrow>
         (hi - lo < 100 \<and> hi < 1100 \<and> 80 < lo)"
proof (cases "sint mx < 1100 \<and> 80 < sint mn")
  case True
  have "0 \<le> sint mx" "sint mn \<le> 9999"
    using assms(1,2) by simp_all
  with True have "sint (mx - mn) = sint mx - sint mn"
    using sint_diff_small [of mx mn] by simp
  with True assms show ?thesis
    by (auto simp: word_sless_alt BUSY_THRESHOLD_def BUSY_MAX_def BUSY_MIN_def)
next
  case False
  with assms show ?thesis
    by (auto simp: word_sless_alt BUSY_THRESHOLD_def BUSY_MAX_def BUSY_MIN_def)
qed

lemma busydetect_result:
  assumes "history_ok dsp"
  shows "ast_dsp_busydetect dsp =
      Inr (if busymaybe dsp \<noteq> 0 \<and> cadence_within_limits dsp then 1 else 0,
           dsp\<lparr>busymaybe := 0\<rparr>)"
proof (cases "busymaybe dsp = 0")
  case True
  then have "dsp\<lparr>busymaybe := 0\<rparr> = dsp"
    by simp
  with True show ?thesis
    by (simp add: ast_dsp_busydetect_def)
next
  case False
  let ?x = "DSP_HISTORY - busycount dsp"
  let ?W = "busy_window dsp"
  have len: "length (historicsilence dsp) = 5" "length (historicnoise dsp) = 5"
    using assms by (simp_all add: history_ok_def)
  have x: "0 \<le> sint ?x" "sint ?x \<le> 5"
    using history_start [OF assms] by simp_all
  from busy_scan_result [OF len x, of 9999 0] obtain mn mx where
    r: "busy_scan (historicsilence dsp) (historicnoise dsp) ?x 9999 0 = Inr (mn, mx)"
      "sint mn = Min (insert 9999 ?W)" "sint mx = Max (insert 0 ?W)"
    unfolding busy_window_slots [OF assms] by auto
  note W = busy_window_nonempty [OF assms]
  have mn: "sint mn = min 9999 (Min ?W)" and mx: "sint mx = max 0 (Max ?W)"
    using r(2,3) W by simp_all
  have "Min ?W \<le> Max ?W"
    using W by simp
  with mn mx have "(mx - mn <s BUSY_THRESHOLD \<and> mx <s BUSY_MAX \<and> BUSY_MIN <s mn) \<longleftrightarrow>
      cadence_within_limits dsp"
    unfolding cadence_within_limits_def by (rule busy_test)
  with False r(1) show ?thesis
    by (simp add: ast_dsp_busydetect_def)
qed

lemma set_busy_count_ok:
  assumes "length (historicsilence dsp) = 5" and "length (historicnoise dsp) = 5"
  shows "history_ok (ast_dsp_set_busy_count dsp cadences)"
  using assms
  by (auto simp: history_ok_def ast_dsp_set_busy_count_def word_sle_eq word_sless_alt
      DSP_HISTORY_def)

lemma shift_history_5: "length h = 5 \<Longrightarrow> shift_history h v = drop 1 h @ [v]"
  by (cases h rule: rev_cases) (simp_all add: shift_history_def DSP_HISTORY_def list_update_append)

lemma silence_result:
  assumes "history_ok dsp" and "static_ast_dsp_silence dsp s len = Inr (res, dsp')"
  shows "history_ok dsp'"
    and "busymaybe dsp' =
      (if (res = 1 \<and> totalnoise dsp \<noteq> 0) \<or> (res = 0 \<and> totalsilence dsp \<noteq> 0) then 1
       else busymaybe dsp)"
    and "res = 1 \<and> totalnoise dsp \<noteq> 0 \<Longrightarrow>
      historicnoise dsp' = drop 1 (historicnoise dsp) @ [totalnoise dsp] \<and>
      historicsilence dsp' = historicsilence dsp"
    and "res = 0 \<and> totalsilence dsp \<noteq> 0 \<Longrightarrow>
      historicsilence dsp' = drop 1 (historicsilence dsp) @ [totalsilence dsp] \<and>
      historicnoise dsp' = historicnoise dsp"
  using assms
  by (auto simp: static_ast_dsp_silence_def Let_def history_ok_def shift_history_5
      split: if_splits)

text \<open>
  Claim C4. With histories of five entries and \<open>busycount\<close> between 1 and 5,
  \<open>ast_dsp_busydetect\<close> returns 1 exactly when \<open>busymaybe\<close> is set and, over the last
  \<open>busycount\<close> slots of the two histories, the largest run length is less than 100
  above the smallest, below 1100, and the smallest is above 80; otherwise it returns
  0. It always leaves \<open>busymaybe\<close> clear, so that a second call returns 0.
  \<open>__ast_dsp_silence\<close> sets \<open>busymaybe\<close> exactly when a block of silence follows noise
  or a block of noise follows silence, which is when it appends the run length that
  has ended to its history.
\<close>

theorem ast_dsp_busydetect_cadence:
  assumes "history_ok dsp"
  shows "ast_dsp_busydetect dsp =
       Inr (if busymaybe dsp \<noteq> 0 \<and> cadence_within_limits dsp then 1 else 0,
            dsp\<lparr>busymaybe := 0\<rparr>) \<and>
     ast_dsp_busydetect (dsp\<lparr>busymaybe := 0\<rparr>) = Inr (0, dsp\<lparr>busymaybe := 0\<rparr>) \<and>
     (static_ast_dsp_silence dsp s len = Inr (res, dsp') \<longrightarrow>
        history_ok dsp' \<and>
        busymaybe dsp' =
          (if (res = 1 \<and> totalnoise dsp \<noteq> 0) \<or> (res = 0 \<and> totalsilence dsp \<noteq> 0) then 1
           else busymaybe dsp) \<and>
        (res = 1 \<and> totalnoise dsp \<noteq> 0 \<longrightarrow>
           historicnoise dsp' = drop 1 (historicnoise dsp) @ [totalnoise dsp] \<and>
           historicsilence dsp' = historicsilence dsp) \<and>
        (res = 0 \<and> totalsilence dsp \<noteq> 0 \<longrightarrow>
           historicsilence dsp' = drop 1 (historicsilence dsp) @ [totalsilence dsp] \<and>
           historicnoise dsp' = historicnoise dsp))"
proof -
  have "history_ok (dsp\<lparr>busymaybe := 0\<rparr>)"
    using assms by (simp add: history_ok_def)
  then have "ast_dsp_busydetect (dsp\<lparr>busymaybe := 0\<rparr>) = Inr (0, dsp\<lparr>busymaybe := 0\<rparr>)"
    by (simp add: busydetect_result)
  with busydetect_result [OF assms] silence_result [OF assms, of s len res dsp']
  show ?thesis
    by simp
qed

theorem ast_dsp_busydetect_cadence_witness:
  "history_ok noise_ending \<and>
   static_ast_dsp_silence noise_ending (replicate 8 0) 8 = Inr (1, busy_dsp) \<and>
   history_ok busy_dsp \<and> busymaybe busy_dsp = 1 \<and>
   historicnoise busy_dsp = drop 1 (historicnoise noise_ending) @ [totalnoise noise_ending] \<and>
   ast_dsp_busydetect busy_dsp = Inr (1, busy_dsp\<lparr>busymaybe := 0\<rparr>) \<and>
   ast_dsp_busydetect (busy_dsp\<lparr>busymaybe := 0\<rparr>) = Inr (0, busy_dsp\<lparr>busymaybe := 0\<rparr>)"
proof -
  have ok0: "history_ok noise_ending"
    by (simp add: history_ok_def noise_ending_def word_sle_eq DSP_HISTORY_def)
  have s: "static_ast_dsp_silence noise_ending (replicate 8 0) 8 = Inr (1, busy_dsp)"
    by code_simp
  have n: "totalnoise noise_ending \<noteq> 0"
    by (simp add: noise_ending_def)
  have ok: "history_ok busy_dsp"
    by (simp add: history_ok_def busy_dsp_def word_sle_eq DSP_HISTORY_def)
  have "busy_window busy_dsp = {500, 510, 520, 505, 515}"
    by (auto simp: busy_window_def busy_dsp_def)
  then have c: "cadence_within_limits busy_dsp"
    by (simp add: cadence_within_limits_def)
  have b: "busymaybe busy_dsp \<noteq> 0"
    by (simp add: busy_dsp_def)
  from ok0 s n ok c b show ?thesis
    using ast_dsp_busydetect_cadence [OF ok0, of "replicate 8 0" 8 1 busy_dsp]
      ast_dsp_busydetect_cadence [OF ok, of "replicate 8 0" 8 1 busy_dsp]
    by simp
qed

section \<open>Properties of the call progress detection\<close>

text \<open>
  What the block evaluation guarantees: a state \<open>SPECIAL2\<close> (\<open>SPECIAL3\<close>) is assigned
  from \<open>SPECIAL1\<close> (\<open>SPECIAL2\<close>), or is the value that \<open>newstate\<close> had before the block; a
  result is given only when \<open>tcount\<close> reaches \<open>COUNT_THRESH\<close>, and every result but
  ringing clears the feature bit. A call that completes no block changes only \<open>gsamps\<close>.
\<close>

lemma classify_special:
  "classify t ts n = TONE_STATE_SPECIAL2 \<Longrightarrow> ts = TONE_STATE_SPECIAL1 \<or> n = TONE_STATE_SPECIAL2"
  "classify t ts n = TONE_STATE_SPECIAL3 \<Longrightarrow> ts = TONE_STATE_SPECIAL2 \<or> n = TONE_STATE_SPECIAL3"
  by (auto simp: classify_def TONE_STATE_BUSY_def TONE_STATE_RINGING_def TONE_STATE_DIALTONE_def
      TONE_STATE_SPECIAL1_def TONE_STATE_SPECIAL2_def TONE_STATE_SPECIAL3_def
      TONE_STATE_TALKING_def TONE_STATE_SILENCE_def split: if_splits)

lemma confirm_clears:
  assumes "confirm cp_bit None dsp = (Some c, dsp')"
  shows "tstate dsp' = tstate dsp"
    and "c \<noteq> AST_CONTROL_RINGING \<Longrightarrow> features dsp' AND cp_bit = 0"
    and "c = AST_CONTROL_RINGING \<Longrightarrow> dsp' = dsp"
  using assms by (auto simp: confirm_def word_bw_assocs split: if_splits)

lemma progress_block_reports:
  assumes "progress_block cp_bit t n None dsp = (n', Some c, dsp')"
  shows "n' = tstate dsp" and "tstate dsp' = tstate dsp" and "tcount dsp' = COUNT_THRESH"
  using assms
  by (auto simp: progress_block_def confirm_def Let_def split: if_splits)

lemma no_block_no_change:
  assumes "0 \<le> sint (gsamps dsp)" and "0 < sint len" and "sint (gsamps dsp) + sint len < 183"
  shows "static_ast_dsp_call_progress cp_bit n0 tests dsp len =
      (None, dsp\<lparr>gsamps := gsamps dsp + len\<rparr>)"
proof -
  have d: "sint (GSAMP_SIZE - gsamps dsp) = 183 - sint (gsamps dsp)"
    using sint_diff_small [of GSAMP_SIZE "gsamps dsp"] assms by (simp add: GSAMP_SIZE_def)
  then have taken: "samples_taken (gsamps dsp) len = len"
    using assms by (simp add: samples_taken_def word_sless_alt)
  have "sint (gsamps dsp + len) = sint (gsamps dsp) + sint len"
    using sint_diff_small [of "gsamps dsp" "- len"] assms
    by (simp add: sint_word_ariths signed_take_bit_int_eq_self)
  then have "sint (gsamps dsp + len) \<noteq> sint GSAMP_SIZE"
    using assms by (simp add: GSAMP_SIZE_def)
  then have ne: "gsamps dsp + len \<noteq> GSAMP_SIZE"
    by auto
  have nz: "len \<noteq> 0"
    using assms(2) by auto
  show ?thesis
    unfolding static_ast_dsp_call_progress_def
    using nz ne taken
    by (simp add: call_progress_loop.simps [of _ _ _ _ len]
        call_progress_loop.simps [of _ _ _ _ 0])
qed

text \<open>
  Claim C3 does not hold of the code, because \<open>newstate\<close> is not assigned in every
  branch. In one call of 549 samples on a new DSP, let the first two blocks have the
  ringing pair and the third only 1400 Hz. The third block leaves \<open>newstate\<close> as the
  second set it, so it counts as the third ringing block: the call returns
  \<open>AST_CONTROL_RINGING\<close>, whatever \<open>newstate\<close> was at entry, though ringing was found in two
  consecutive blocks only. And when a block with only 1400 Hz is the first of a call,
  \<open>newstate\<close> is read without ever having been assigned: should it hold
  \<open>TONE_STATE_SPECIAL2\<close>, the state \<open>SPECIAL2\<close> is entered from \<open>SILENCE\<close>.
\<close>

theorem ringing_reported_after_two_ringing_blocks:
  "static_ast_dsp_call_progress 4 n0 ring_ring_1400 fresh_dsp 549 =
     (Some AST_CONTROL_RINGING, fresh_dsp\<lparr>tstate := TONE_STATE_RINGING, tcount := 3\<rparr>) \<and>
   static_ast_dsp_call_progress 4 TONE_STATE_SPECIAL2 (\<lambda>k. hz_1400_block) fresh_dsp 183 =
     (None, fresh_dsp\<lparr>tstate := TONE_STATE_SPECIAL2, tcount := 1\<rparr>)"
  by (simp add: static_ast_dsp_call_progress_def call_progress_loop.simps samples_taken_def
      progress_block_def classify_def confirm_def fresh_dsp_def ring_ring_1400_def
      ringing_block_def hz_1400_block_def silent_block_def GSAMP_SIZE_def COUNT_THRESH_def
      TONE_STATE_BUSY_def TONE_STATE_RINGING_def TONE_STATE_DIALTONE_def
      TONE_STATE_SPECIAL1_def TONE_STATE_SPECIAL2_def TONE_STATE_SPECIAL3_def
      TONE_STATE_TALKING_def TONE_STATE_SILENCE_def word_sless_alt)

end
